theory Spec2Isabelle
  imports Complex_Main "HOL-Library.Multiset"
begin

section \<open>Errors\<close>

text \<open>
  The Python exceptions that the modelled code can raise. \<open>DecodeError\<close> stands for the
  failure of \<^verbatim>\<open>msgpack_numpy.unpackb(txn.get(key))\<close> on a key the store does not hold;
  \<open>TypeError\<close> for a failing \<^verbatim>\<open>next(...)\<close> on the negative-feature loader.
\<close>

datatype error = ZeroDivisionError | ValueError | IndexError | DecodeError | TypeError

section \<open>The random number generator and \<^verbatim>\<open>random.shuffle\<close>\<close>

text \<open>
  The process-wide generator of Python's \<^verbatim>\<open>random\<close> module is a state: the infinite
  sequence of its raw outputs and the position reached. \<^verbatim>\<open>randbelow(n)\<close> consumes one
  output and returns a number below \<open>n\<close>. Every sequence of outcomes is the behaviour of
  some \<open>draws\<close>, so a statement for all generators covers every run.
\<close>

record rng =
  draws :: "nat \<Rightarrow> nat"
  pos :: nat

definition randbelow :: "nat \<Rightarrow> rng \<Rightarrow> nat \<times> rng" where
  "randbelow n g = (draws g (pos g) mod n, g\<lparr>pos := Suc (pos g)\<rparr>)"

text \<open>
  \<^verbatim>\<open>random.shuffle(x)\<close> is the library's in-place Fisher-Yates loop
  \<^verbatim>\<open>for i in reversed(range(1, len(x))): j = randbelow(i + 1); x[i], x[j] = x[j], x[i]\<close>.
  \<open>shuffle_from k\<close> runs the iterations \<open>i = k, k - 1, ..., 1\<close>.
\<close>

fun shuffle_from :: "nat \<Rightarrow> 'a list \<Rightarrow> rng \<Rightarrow> 'a list \<times> rng" where
  "shuffle_from 0 x g = (x, g)"
| "shuffle_from (Suc k) x g =
     (case randbelow (Suc k + 1) g of
        (j, g') \<Rightarrow> shuffle_from k (x[Suc k := x ! j, j := x ! Suc k]) g')"

definition shuffle :: "'a list \<Rightarrow> rng \<Rightarrow> 'a list \<times> rng" where
  "shuffle x g = shuffle_from (length x - 1) x g"

section \<open>\<^verbatim>\<open>_block_shuffle\<close>\<close>

text \<open>
  \<^verbatim>\<open>range(0, n, step)\<close> for a positive step: the multiples of \<open>step\<close> below \<open>n\<close>,
  of which there are \<open>ceil(n / step)\<close>.
\<close>

definition range_step :: "nat \<Rightarrow> nat \<Rightarrow> nat list" where
  "range_step n step = map (\<lambda>k. k * step) [0..<(n + step - 1) div step]"

text \<open>
  \<^verbatim>\<open>blocks = [lst[i : i + block_size] for i in range(0, len(lst), block_size)]\<close>,
  \<^verbatim>\<open>random.shuffle(blocks)\<close>, \<^verbatim>\<open>return [ele for block in blocks for ele in block]\<close>.
  A step of zero makes \<^verbatim>\<open>range\<close> raise \<open>ValueError\<close>. The block size is a count, a \<open>nat\<close>.
\<close>

definition block_shuffle :: "'a list \<Rightarrow> nat \<Rightarrow> rng \<Rightarrow> error + ('a list \<times> rng)" where
  "block_shuffle lst block_size g =
     (if block_size = 0 then Inl ValueError
      else
        let blocks = map (\<lambda>i. take block_size (drop i lst)) (range_step (length lst) block_size)
        in case shuffle blocks g of
             (blocks', g') \<Rightarrow> Inr (concat blocks', g'))"

section \<open>Shard ranges of \<^verbatim>\<open>FramesDataset.__iter__\<close>\<close>

text \<open>
  \<^verbatim>\<open>torch.utils.data.get_worker_info()\<close> is \<open>None\<close> in the main process and carries
  \<open>num_workers\<close> and \<open>id\<close> in a worker.
\<close>

record worker_info =
  num_workers :: nat
  worker_id :: nat

text \<open>
  \<^verbatim>\<open>per_worker = int(np.ceil(self.length / worker_info.num_workers))\<close>: the ceiling of the
  quotient (the source divides in double precision, which gives the same ceiling for every
  entry count below \<open>2 ^ 52\<close>). A worker count of zero makes the division raise.
\<close>

definition per_worker :: "nat \<Rightarrow> nat \<Rightarrow> nat" where
  "per_worker len w = nat \<lceil>real len / real w\<rceil>"

definition shard_range :: "nat \<Rightarrow> worker_info option \<Rightarrow> error + (nat \<times> nat)" where
  "shard_range len wi =
     (case wi of
        None \<Rightarrow> Inr (0, len)
      | Some w \<Rightarrow>
          if num_workers w = 0 then Inl ZeroDivisionError
          else
            let pw = per_worker len (num_workers w);
                start = pw * worker_id w
            in Inr (start, min (start + pw) len))"

text \<open>The record indices \<^verbatim>\<open>range(self.start, self.end)\<close> of a shard.\<close>

definition shard_indices :: "nat \<Rightarrow> worker_info option \<Rightarrow> nat set" where
  "shard_indices len wi =
     (case shard_range len wi of Inl e \<Rightarrow> {} | Inr (s, e) \<Rightarrow> {s..<e})"

section \<open>\<^verbatim>\<open>FramesDataset\<close>: the streaming dataset\<close>

text \<open>
  The feature store maps a record index (the key \<^verbatim>\<open>str(index).encode()\<close>) to the decoded
  record, already reshaped to its sequence of (rgb, depth) pairs, one per pose:
  \<^verbatim>\<open>zip(rgb_feat, depth_feat)\<close> after both arrays are flattened on their two leading axes.
  A key the store does not hold makes the decoding raise.
\<close>

type_synonym 'p store = "nat \<Rightarrow> 'p list option"

text \<open>
  The attributes of a \<^verbatim>\<open>FramesDataset\<close>. \<open>entries\<close> is \<^verbatim>\<open>self.length\<close> and \<open>end_ix\<close> is
  \<^verbatim>\<open>self.end\<close>. \<open>reads\<close> is not an attribute: it logs the record indices fetched from the
  store, in order. \<open>gen\<close> is the state of the process's \<^verbatim>\<open>random\<close> module.
  \<^verbatim>\<open>start\<close>, \<^verbatim>\<open>end\<close> and \<^verbatim>\<open>load_ordering\<close> exist only once \<^verbatim>\<open>__iter__\<close> has run, which
  assigns all three; the values \<open>frames_dataset_init\<close> gives them are never read.
\<close>

record 'p frames_dataset =
  entries :: nat
  batch_size :: nat
  preload_size :: nat
  preload :: "'p list"
  start :: nat
  end_ix :: nat
  load_ordering :: "nat list"
  reads :: "nat list"
  gen :: rng

definition frames_dataset_init :: "nat \<Rightarrow> nat \<Rightarrow> rng \<Rightarrow> 'p frames_dataset" where
  "frames_dataset_init n bsz g =
     \<lparr>entries = n, batch_size = bsz, preload_size = bsz * 10, preload = [],
      start = 0, end_ix = 0, load_ordering = [], reads = [], gen = g\<rparr>"

text \<open>
  \<^verbatim>\<open>list(reversed(_block_shuffle(list(range(self.start, self.end)), self.preload_size)))\<close>,
  the expression that \<^verbatim>\<open>__iter__\<close> and \<^verbatim>\<open>_load_next\<close> both assign to \<^verbatim>\<open>self.load_ordering\<close>.
\<close>

definition new_ordering :: "'p frames_dataset \<Rightarrow> error + 'p frames_dataset" where
  "new_ordering d =
     (case block_shuffle [start d..<end_ix d] (preload_size d) (gen d) of
        Inl e \<Rightarrow> Inl e
      | Inr (ord, g') \<Rightarrow> Inr (d\<lparr>load_ordering := rev ord, gen := g'\<rparr>))"

definition iter_ds :: "'p frames_dataset \<Rightarrow> worker_info option \<Rightarrow> error + 'p frames_dataset" where
  "iter_ds d wi =
     (case shard_range (entries d) wi of
        Inl e \<Rightarrow> Inl e
      | Inr (s, e) \<Rightarrow> new_ordering (d\<lparr>start := s, end_ix := e\<rparr>))"

text \<open>
  The \<^verbatim>\<open>while len(new_preload) < self.preload_size\<close> loop of \<^verbatim>\<open>_load_next\<close>: it stops when
  the ordering is empty, and otherwise pops the last index, decodes its record and appends
  the record's pairs. It returns the ordering left, the pairs read and the read log.
\<close>

function fill :: "'p store \<Rightarrow> nat \<Rightarrow> nat list \<Rightarrow> 'p list \<Rightarrow> nat list
    \<Rightarrow> error + (nat list \<times> 'p list \<times> nat list)" where
  "fill st psz ord new_preload rd =
     (if length new_preload < psz then
        (if ord = [] then Inr (ord, new_preload, rd)
         else
           (case st (last ord) of
              None \<Rightarrow> Inl DecodeError
            | Some pairs \<Rightarrow> fill st psz (butlast ord) (new_preload @ pairs) (rd @ [last ord])))
      else Inr (ord, new_preload, rd))"
  by pat_completeness auto
termination
  by (relation "measure (\<lambda>(st, psz, ord, new_preload, rd). length ord)") auto

text \<open>\<^verbatim>\<open>self._preload.pop()\<close>: the last element, and \<open>IndexError\<close> on an empty list.\<close>

definition pop_preload :: "'p frames_dataset \<Rightarrow> error + ('p \<times> 'p frames_dataset)" where
  "pop_preload d =
     (if preload d = [] then Inl IndexError
      else Inr (last (preload d), d\<lparr>preload := butlast (preload d)\<rparr>))"

definition load_next :: "'p store \<Rightarrow> 'p frames_dataset \<Rightarrow> error + ('p \<times> 'p frames_dataset)" where
  "load_next st d =
     (if length (preload d) < batch_size d then
        (case (if load_ordering d = [] then new_ordering d else Inr d) of
           Inl e \<Rightarrow> Inl e
         | Inr d1 \<Rightarrow>
             (case fill st (preload_size d1) (load_ordering d1) [] (reads d1) of
                Inl e \<Rightarrow> Inl e
              | Inr (ord, new_preload, rd) \<Rightarrow>
                  (case shuffle [0..<length new_preload] (gen d1) of
                     (sorted_ordering, g1) \<Rightarrow>
                       (case block_shuffle sorted_ordering (batch_size d1) g1 of
                          Inl e \<Rightarrow> Inl e
                        | Inr (idxs, g2) \<Rightarrow>
                            pop_preload
                              (d1\<lparr>load_ordering := ord, reads := rd, gen := g2,
                                  preload := preload d1 @ map (\<lambda>idx. new_preload ! idx) idxs\<rparr>)))))
      else pop_preload d)"

text \<open>
  \<^verbatim>\<open>__next__\<close> returns the pair of \<^verbatim>\<open>_load_next\<close>, its two arrays copied into tensors.
\<close>

definition next_ds :: "'p store \<Rightarrow> 'p frames_dataset \<Rightarrow> error + ('p \<times> 'p frames_dataset)" where
  "next_ds st d = load_next st d"

text \<open>\<open>n\<close> calls of \<^verbatim>\<open>__next__\<close> in a row, stopping at the first exception.\<close>

fun take_items :: "'p store \<Rightarrow> nat \<Rightarrow> 'p frames_dataset \<Rightarrow> error + ('p list \<times> 'p frames_dataset)" where
  "take_items st 0 d = Inr ([], d)"
| "take_items st (Suc n) d =
     (case next_ds st d of
        Inl e \<Rightarrow> Inl e
      | Inr (p, d') \<Rightarrow>
          (case take_items st n d' of
             Inl e \<Rightarrow> Inl e
           | Inr (ps, d'') \<Rightarrow> Inr (p # ps, d'')))"

text \<open>
  A dataset on which \<^verbatim>\<open>__next__\<close> can be served from the store \<open>st\<close>: the batch size and the
  preload size are positive, the shard is not empty, the ordering holds indices of the shard
  only, and every record of the shard is in the store and decodes to at least one pair.
\<close>

definition servable :: "'p store \<Rightarrow> 'p frames_dataset \<Rightarrow> bool" where
  "servable st d \<longleftrightarrow>
     0 < batch_size d \<and> 0 < preload_size d \<and> start d < end_ix d \<and>
     set (load_ordering d) \<subseteq> {start d..<end_ix d} \<and>
     (\<forall>i\<in>{start d..<end_ix d}. case st i of None \<Rightarrow> False | Some pairs \<Rightarrow> pairs \<noteq> [])"

text \<open>
  The read log \<open>rd\<close> is a sequence of complete passes over the shard \<open>sh\<close>, each a
  permutation of it, followed by the part read of the current pass, which together with the
  ordering \<open>ord\<close> still to be read is a permutation of the shard.
\<close>

definition pass_structure :: "nat list \<Rightarrow> nat list \<Rightarrow> nat list \<Rightarrow> bool" where
  "pass_structure sh rd ord \<longleftrightarrow>
     (\<exists>passes cur. rd = concat passes @ cur \<and> (\<forall>p\<in>set passes. mset p = mset sh) \<and>
        mset cur + mset ord = mset sh)"

text \<open>
  The part of a dataset that the ordering and the read log depend on: the shard, the two
  sizes, the ordering, the read log and the number of preloaded pairs.
\<close>

definition view :: "'p frames_dataset \<Rightarrow> nat \<times> nat \<times> nat \<times> nat \<times> nat list \<times> nat list \<times> nat" where
  "view d =
     (start d, end_ix d, batch_size d, preload_size d, load_ordering d, reads d,
      length (preload d))"

text \<open>A generator and a store of 23 records with two pairs each, for the examples.\<close>

abbreviation example_rng :: rng where
  "example_rng \<equiv> \<lparr>draws = (\<lambda>k. 7 * k + 3), pos = 0\<rparr>"

abbreviation example_store :: "nat store" where
  "example_store \<equiv> (\<lambda>i. if i < 23 then Some [i, 100 + i] else None)"

section \<open>Tensors\<close>

text \<open>
  Tensor entries are real numbers. A rollout tensor is a list of steps, each a list over the
  environments; a minibatch tensor is flat. Binary operations are element by element.
  In \<^verbatim>\<open>get_advantages\<close> the tensor of a short rollout can have fewer than two entries, and
  torch's mean or standard deviation is then NaN, a division of zero by zero: there NaN is
  written \<open>None\<close>. A minibatch tensor holds the steps of at least one environment; the mean
  of an empty one is not modelled (\<open>tmean []\<close> is the \<open>0 / 0 = 0\<close> of HOL), and no theorem
  depends on it.
\<close>

type_synonym tensor = "real list"

definition tmean :: "tensor \<Rightarrow> real" where
  "tmean x = sum_list x / real (length x)"

definition clamp :: "real \<Rightarrow> real \<Rightarrow> real \<Rightarrow> real" where
  \<comment> \<open>\<^verbatim>\<open>torch.clamp(x, lo, hi)\<close> is \<^verbatim>\<open>min(max(x, lo), hi)\<close>, also when \<open>lo > hi\<close>.\<close>
  "clamp lo hi x = min (max x lo) hi"

definition l1_loss :: "tensor \<Rightarrow> tensor \<Rightarrow> real" where
  \<comment> \<open>\<^verbatim>\<open>torch.nn.functional.l1_loss\<close> with its default reduction, the mean.\<close>
  "l1_loss x y = tmean (map2 (\<lambda>a b. \<bar>a - b\<bar>) x y)"

definition zeros_like :: "tensor \<Rightarrow> tensor" where
  "zeros_like x = replicate (length x) 0"

text \<open>
  The L1 distance in the words of the claim on the offset term, for comparison with the code:
  the sum of the absolute differences, not divided by the number of entries.
\<close>

definition l1_distance :: "tensor \<Rightarrow> tensor \<Rightarrow> real" where
  "l1_distance x y = sum_list (map2 (\<lambda>a b. \<bar>a - b\<bar>) x y)"

section \<open>\<^verbatim>\<open>WDDPPO.get_advantages\<close>\<close>

record ppo_config =
  use_normalized_advantage :: bool
  ppo_epoch :: nat
  num_mini_batch :: nat
  clip_param :: real
  value_loss_coef :: real
  entropy_coef :: real
  use_clipped_value_loss :: bool
  offset_regularize_coef :: real
  pano_entropy_coef :: real
  offset_entropy_coef :: real
  distance_entropy_coef :: real

text \<open>
  \<^verbatim>\<open>Tensor.mean()\<close> and \<^verbatim>\<open>Tensor.std()\<close> reduce over every entry of the tensor.
  \<^verbatim>\<open>std()\<close> without arguments is torch's default, the estimator with Bessel's correction:
  the squared deviations are divided by the number of entries minus one. With fewer than two
  entries that is a division of zero by zero, and the result is NaN.
\<close>

definition tensor_mean :: "real list list \<Rightarrow> real option" where
  "tensor_mean a =
     (let x = concat a
      in if x = [] then None else Some (sum_list x / real (length x)))"

definition tensor_std :: "real list list \<Rightarrow> real option" where
  "tensor_std a =
     (let x = concat a
      in if length x < 2 then None
         else
           let m = sum_list x / real (length x)
           in Some (sqrt (sum_list (map (\<lambda>v. (v - m)\<^sup>2) x) / real (length x - 1))))"

definition tsub :: "real list list \<Rightarrow> real list list \<Rightarrow> real list list" where
  "tsub a b = map2 (map2 (\<lambda>x y. x - y)) a b"

text \<open>\<^verbatim>\<open>x[:-1]\<close> is \<open>butlast x\<close>, the empty list for an empty \<open>x\<close>.\<close>

definition get_advantages :: "ppo_config \<Rightarrow> real list list \<Rightarrow> real list list \<Rightarrow> real option list list" where
  "get_advantages cfg returns value_preds =
     (let advantages = tsub (butlast returns) (butlast value_preds)
      in if \<not> use_normalized_advantage cfg then map (map Some) advantages
         else
           (case (tensor_mean advantages, tensor_std advantages) of
              (Some m, Some sd) \<Rightarrow> map (map (\<lambda>v. Some ((v - m) / (sd + 1 / 100000)))) advantages
            | _ \<Rightarrow> map (map (\<lambda>v. None)) advantages))"

text \<open>
  The standardization in the words of the specification, for comparison with the code: the
  population standard deviation divides the squared deviations by the number of entries.
\<close>

definition population_std :: "real list \<Rightarrow> real" where
  "population_std x =
     (let m = sum_list x / real (length x)
      in sqrt (sum_list (map (\<lambda>v. (v - m)\<^sup>2) x) / real (length x)))"

definition standardize_population :: "real list list \<Rightarrow> real option list list" where
  "standardize_population a =
     (let x = concat a; m = sum_list x / real (length x)
      in map (map (\<lambda>v. Some ((v - m) / (population_std x + 1 / 100000)))) a)"

text \<open>A configuration for the examples.\<close>

abbreviation example_config :: ppo_config where
  "example_config \<equiv>
     \<lparr>use_normalized_advantage = True, ppo_epoch = 2, num_mini_batch = 2, clip_param = 1 / 5,
      value_loss_coef = 1 / 2, entropy_coef = 1 / 100, use_clipped_value_loss = True,
      offset_regularize_coef = 0, pano_entropy_coef = 1, offset_entropy_coef = 1,
      distance_entropy_coef = 1\<rparr>"

section \<open>The update loop of \<^verbatim>\<open>WDDPPO\<close> and \<^verbatim>\<open>CWDDPPO\<close>\<close>

text \<open>The nine components of a sample of the rollout buffer's generator.\<close>

record sample =
  obs_batch :: "string \<rightharpoonup> tensor"
  recurrent_hidden_states_batch :: tensor
  actions_batch :: "string \<rightharpoonup> tensor"
  prev_actions_batch :: "string \<rightharpoonup> tensor"
  value_preds_batch :: tensor
  return_batch :: tensor
  masks_batch :: tensor
  old_action_log_probs_batch :: tensor
  adv_targ :: tensor

text \<open>
  What \<^verbatim>\<open>actor_critic.evaluate_actions\<close> returns: the values (\<open>values_out\<close>), the
  log-probabilities and the
  entropy dictionary with its keys \<^verbatim>\<open>"pano"\<close>, \<^verbatim>\<open>"offset"\<close> and \<^verbatim>\<open>"distance"\<close>.
\<close>

record eval_out =
  values_out :: tensor
  action_log_probs :: tensor
  pano :: tensor
  offset :: tensor
  distance :: tensor

text \<open>
  The collaborators the loop calls, over an abstract type \<open>'net\<close> of network parameters:
  the policy's two functions, and \<open>train_step\<close>, the parameters that result from
  \<^verbatim>\<open>zero_grad\<close>, the backward pass of the minibatch's loss, the hooks and \<^verbatim>\<open>optimizer.step\<close>.
\<close>

record 'net collaborators =
  evaluate_actions :: "'net \<Rightarrow> (string \<rightharpoonup> tensor) \<Rightarrow> tensor \<Rightarrow> (string \<rightharpoonup> tensor) \<Rightarrow> tensor
      \<Rightarrow> (string \<rightharpoonup> tensor) \<Rightarrow> eval_out"
  offset_to_continuous :: "'net \<Rightarrow> tensor \<Rightarrow> tensor"
  train_step :: "'net \<Rightarrow> sample \<Rightarrow> 'net"

text \<open>
  The rollout buffer: its two tensors and its generator of minibatches. The generator gets
  the advantages, the number of minibatches and the number of the epoch (it may yield
  different minibatches in each).
\<close>

record rollouts =
  returns :: "real list list"
  value_preds :: "real list list"
  recurrent_generator :: "real option list list \<Rightarrow> nat \<Rightarrow> nat \<Rightarrow> sample list"

definition entropy_loss_of :: "ppo_config \<Rightarrow> eval_out \<Rightarrow> real" where
  "entropy_loss_of cfg out =
     tmean (map (\<lambda>(ep, eo, ed). pano_entropy_coef cfg * ep + offset_entropy_coef cfg * eo
                   + distance_entropy_coef cfg * ed)
              (zip (pano out) (zip (offset out) (distance out))))
     * entropy_coef cfg"

definition action_loss_of :: "ppo_config \<Rightarrow> eval_out \<Rightarrow> sample \<Rightarrow> real" where
  "action_loss_of cfg out s =
     (let ratio = map2 (\<lambda>new old. exp (new - old)) (action_log_probs out) (old_action_log_probs_batch s);
          surr1 = map2 (\<lambda>r a. r * a) ratio (adv_targ s);
          surr2 = map2 (\<lambda>r a. clamp (1 - clip_param cfg) (1 + clip_param cfg) r * a) ratio (adv_targ s)
      in - tmean (map2 min surr1 surr2))"

definition value_pred_clipped :: "ppo_config \<Rightarrow> eval_out \<Rightarrow> sample \<Rightarrow> tensor" where
  "value_pred_clipped cfg out s =
     map2 (\<lambda>vp d. vp + d) (value_preds_batch s)
       (map (clamp (- clip_param cfg) (clip_param cfg))
          (map2 (\<lambda>v vp. v - vp) (values_out out) (value_preds_batch s)))"

definition value_losses :: "eval_out \<Rightarrow> sample \<Rightarrow> tensor" where
  "value_losses out s = map2 (\<lambda>v r. (v - r)\<^sup>2) (values_out out) (return_batch s)"

definition value_losses_clipped :: "ppo_config \<Rightarrow> eval_out \<Rightarrow> sample \<Rightarrow> tensor" where
  "value_losses_clipped cfg out s =
     map2 (\<lambda>c r. (c - r)\<^sup>2) (value_pred_clipped cfg out s) (return_batch s)"

definition value_loss_of :: "ppo_config \<Rightarrow> eval_out \<Rightarrow> sample \<Rightarrow> real" where
  "value_loss_of cfg out s =
     (if use_clipped_value_loss cfg
      then 0.5 * tmean (map2 max (value_losses out s) (value_losses_clipped cfg out s))
      else 0.5 * tmean (map2 (\<lambda>r v. (r - v)\<^sup>2) (return_batch s) (values_out out)))
     * value_loss_coef cfg"

definition offset_loss_of :: "ppo_config \<Rightarrow> 'net collaborators \<Rightarrow> 'net \<Rightarrow> sample \<Rightarrow> real" where
  "offset_loss_of cfg ext n s =
     (case actions_batch s ''offset'' of
        None \<Rightarrow> 0
      | Some off \<Rightarrow>
          offset_regularize_coef cfg * l1_loss (offset_to_continuous ext n off) (zeros_like off))"

definition evaluate :: "'net collaborators \<Rightarrow> 'net \<Rightarrow> sample \<Rightarrow> eval_out" where
  "evaluate ext n s =
     evaluate_actions ext n (obs_batch s) (recurrent_hidden_states_batch s)
       (prev_actions_batch s) (masks_batch s) (actions_batch s)"

definition total_loss :: "ppo_config \<Rightarrow> 'net collaborators \<Rightarrow> 'net \<Rightarrow> sample \<Rightarrow> real" where
  "total_loss cfg ext n s =
     (let out = evaluate ext n s
      in value_loss_of cfg out s + action_loss_of cfg out s + offset_loss_of cfg ext n s
         - entropy_loss_of cfg out)"

text \<open>The calls on the optimizer, the loss and the trainer's hooks, with their argument.\<close>

datatype event =
    ZeroGrad
  | BeforeBackward real
  | Backward real
  | AfterBackward real
  | BeforeStep
  | OptimizerStep
  | AfterStep

text \<open>
  The state of one call of \<^verbatim>\<open>update\<close>: the network parameters, the calls made so far and
  the six accumulators.
\<close>

record 'net loop_state =
  net :: 'net
  calls :: "event list"
  value_loss_epoch :: real
  action_loss_epoch :: real
  entropy_loss_epoch :: real
  pano_entropy_epoch :: real
  offset_entropy_epoch :: real
  distance_entropy_epoch :: real

definition loop_start :: "'net \<Rightarrow> 'net loop_state" where
  "loop_start n =
     \<lparr>net = n, calls = [], value_loss_epoch = 0, action_loss_epoch = 0,
      entropy_loss_epoch = 0, pano_entropy_epoch = 0, offset_entropy_epoch = 0,
      distance_entropy_epoch = 0\<rparr>"

text \<open>The body of the loop over the samples, from \<^verbatim>\<open>evaluate_actions\<close> on.\<close>

definition minibatch_step :: "ppo_config \<Rightarrow> 'net collaborators \<Rightarrow> 'net loop_state \<Rightarrow> sample
    \<Rightarrow> 'net loop_state" where
  "minibatch_step cfg ext t s =
     (let out = evaluate ext (net t) s;
          loss = total_loss cfg ext (net t) s
      in t\<lparr>net := train_step ext (net t) s,
            calls := calls t @ [ZeroGrad, BeforeBackward loss, Backward loss, AfterBackward loss,
                                BeforeStep, OptimizerStep, AfterStep],
            value_loss_epoch := value_loss_epoch t + value_loss_of cfg out s,
            action_loss_epoch := action_loss_epoch t + action_loss_of cfg out s,
            entropy_loss_epoch := entropy_loss_epoch t + entropy_loss_of cfg out,
            pano_entropy_epoch := pano_entropy_epoch t + tmean (pano out),
            offset_entropy_epoch := offset_entropy_epoch t + tmean (offset out),
            distance_entropy_epoch := distance_entropy_epoch t + tmean (distance out)\<rparr>)"

text \<open>
  The six averages that both \<^verbatim>\<open>update\<close> methods return; a float divided by the integer
  zero raises.
\<close>

definition averages :: "ppo_config \<Rightarrow> 'net loop_state
    \<Rightarrow> error + (real \<times> real \<times> real \<times> real \<times> real \<times> real)" where
  "averages cfg t =
     (let num_updates = ppo_epoch cfg * num_mini_batch cfg
      in if num_updates = 0 then Inl ZeroDivisionError
         else Inr (value_loss_epoch t / real num_updates,
                   action_loss_epoch t / real num_updates,
                   entropy_loss_epoch t / real num_updates,
                   pano_entropy_epoch t / real num_updates,
                   offset_entropy_epoch t / real num_updates,
                   distance_entropy_epoch t / real num_updates))"

subsection \<open>\<^verbatim>\<open>WDDPPO.update\<close>\<close>

definition update_loop :: "ppo_config \<Rightarrow> 'net collaborators \<Rightarrow> rollouts \<Rightarrow> 'net \<Rightarrow> 'net loop_state" where
  "update_loop cfg ext r n =
     (let advantages = get_advantages cfg (returns r) (value_preds r)
      in foldl (\<lambda>t e. foldl (minibatch_step cfg ext) t
                         (recurrent_generator r advantages (num_mini_batch cfg) e))
           (loop_start n) [0..<ppo_epoch cfg])"

text \<open>The state the loop leaves, and the tuple returned or the exception raised.\<close>

definition update :: "ppo_config \<Rightarrow> 'net collaborators \<Rightarrow> rollouts \<Rightarrow> 'net
    \<Rightarrow> 'net loop_state \<times> (error + (real \<times> real \<times> real \<times> real \<times> real \<times> real))" where
  "update cfg ext r n =
     (let t = update_loop cfg ext r n in (t, averages cfg t))"

subsection \<open>\<^verbatim>\<open>CWDDPPO.update\<close>\<close>

text \<open>
  \<^verbatim>\<open>next(self.diter)\<close> is a call on the loader of negative features, with a state \<open>'d\<close> of
  its own: a loader returns a batch of rgb and depth features, or raises. The two tensors are
  stored in the observation dictionary before \<^verbatim>\<open>evaluate_actions\<close>. The loop takes the loader
  as a parameter.
\<close>

type_synonym 'd loader = "'d \<Rightarrow> error + ((tensor \<times> tensor) \<times> 'd)"

text \<open>
  The loader that \<^verbatim>\<open>CWDDPPO.__init__\<close> builds: \<^verbatim>\<open>self.diter\<close> is assigned the
  \<^verbatim>\<open>torch.utils.data.DataLoader\<close> object itself, not an iterator made from it. A
  \<^verbatim>\<open>DataLoader\<close> has \<^verbatim>\<open>__iter__\<close> and no \<^verbatim>\<open>__next__\<close>, so \<^verbatim>\<open>next(self.diter)\<close> raises
  \<open>TypeError\<close>, whatever the state of the dataset behind it.
\<close>

definition diter_next :: "'d loader" where
  "diter_next d = Inl TypeError"

definition with_negatives :: "sample \<Rightarrow> tensor \<times> tensor \<Rightarrow> sample" where
  "with_negatives s feats =
     s\<lparr>obs_batch := (obs_batch s)(''neg_rgb_features'' \<mapsto> fst feats,
                                     ''neg_depth_features'' \<mapsto> snd feats)\<rparr>"

fun cw_samples :: "ppo_config \<Rightarrow> 'net collaborators \<Rightarrow> 'd loader \<Rightarrow> 'net loop_state \<times> 'd
    \<Rightarrow> sample list \<Rightarrow> error + ('net loop_state \<times> 'd)" where
  "cw_samples cfg ext nxt (t, d) [] = Inr (t, d)"
| "cw_samples cfg ext nxt (t, d) (s # ss) =
     (case nxt d of
        Inl e \<Rightarrow> Inl e
      | Inr (feats, d') \<Rightarrow>
          cw_samples cfg ext nxt (minibatch_step cfg ext t (with_negatives s feats), d') ss)"

fun cw_epochs :: "ppo_config \<Rightarrow> 'net collaborators \<Rightarrow> 'd loader \<Rightarrow> (nat \<Rightarrow> sample list)
    \<Rightarrow> 'net loop_state \<times> 'd \<Rightarrow> nat list \<Rightarrow> error + ('net loop_state \<times> 'd)" where
  "cw_epochs cfg ext nxt generator td [] = Inr td"
| "cw_epochs cfg ext nxt generator td (e # es) =
     (case cw_samples cfg ext nxt td (generator e) of
        Inl err \<Rightarrow> Inl err
      | Inr td' \<Rightarrow> cw_epochs cfg ext nxt generator td' es)"

definition cw_update_loop :: "ppo_config \<Rightarrow> 'net collaborators \<Rightarrow> 'd loader \<Rightarrow> rollouts \<Rightarrow> 'net \<Rightarrow> 'd
    \<Rightarrow> error + ('net loop_state \<times> 'd)" where
  "cw_update_loop cfg ext nxt r n d =
     (let advantages = get_advantages cfg (returns r) (value_preds r)
      in cw_epochs cfg ext nxt (recurrent_generator r advantages (num_mini_batch cfg))
           (loop_start n, d) [0..<ppo_epoch cfg])"

definition cw_update :: "ppo_config \<Rightarrow> 'net collaborators \<Rightarrow> 'd loader \<Rightarrow> rollouts \<Rightarrow> 'net \<Rightarrow> 'd
    \<Rightarrow> error + (('net loop_state \<times> 'd) \<times> (real \<times> real \<times> real \<times> real \<times> real \<times> real))" where
  "cw_update cfg ext nxt r n d =
     (case cw_update_loop cfg ext nxt r n d of
        Inl e \<Rightarrow> Inl e
      | Inr (t, d') \<Rightarrow>
          (case averages cfg t of
             Inl e \<Rightarrow> Inl e
           | Inr avg \<Rightarrow> Inr ((t, d'), avg)))"

subsection \<open>The calls of one minibatch, and examples\<close>

text \<open>The seven calls that the body of the loop makes, in their order, for a loss.\<close>

definition call_sequence :: "real \<Rightarrow> event list" where
  "call_sequence loss =
     [ZeroGrad, BeforeBackward loss, Backward loss, AfterBackward loss,
      BeforeStep, OptimizerStep, AfterStep]"

text \<open>
  The losses of the minibatches in the order in which the loop meets them: each sample is
  evaluated with the parameters that the steps before it have left.
\<close>

fun sample_losses :: "ppo_config \<Rightarrow> 'net collaborators \<Rightarrow> 'net \<Rightarrow> sample list \<Rightarrow> real list" where
  "sample_losses cfg ext n [] = []"
| "sample_losses cfg ext n (s # ss) =
     total_loss cfg ext n s # sample_losses cfg ext (train_step ext n s) ss"

fun epoch_losses :: "ppo_config \<Rightarrow> 'net collaborators \<Rightarrow> (nat \<Rightarrow> sample list) \<Rightarrow> 'net \<Rightarrow> nat list
    \<Rightarrow> real list" where
  "epoch_losses cfg ext generator n [] = []"
| "epoch_losses cfg ext generator n (e # es) =
     sample_losses cfg ext n (generator e)
     @ epoch_losses cfg ext generator (foldl (train_step ext) n (generator e)) es"

text \<open>A policy, a sample, a rollout buffer and a loader for the examples.\<close>

abbreviation example_policy :: "nat collaborators" where
  "example_policy \<equiv>
     \<lparr>evaluate_actions = (\<lambda>n obs h pa m a.
        \<lparr>values_out = [1, 2], action_log_probs = [0, 0], pano = [1, 1], offset = [2, 2],
         distance = [3, 3]\<rparr>),
      offset_to_continuous = (\<lambda>n t. t),
      train_step = (\<lambda>n s. Suc n)\<rparr>"

abbreviation example_sample :: sample where
  "example_sample \<equiv>
     \<lparr>obs_batch = Map.empty, recurrent_hidden_states_batch = [], actions_batch = Map.empty,
      prev_actions_batch = Map.empty, value_preds_batch = [1, 2], return_batch = [2, 4],
      masks_batch = [1, 1], old_action_log_probs_batch = [0, 0], adv_targ = [1, - 1]\<rparr>"

abbreviation example_rollouts :: rollouts where
  "example_rollouts \<equiv>
     \<lparr>returns = [[1, 1], [1, 5], [9, 9]], value_preds = [[0, 0], [0, 0], [0, 0]],
      recurrent_generator = (\<lambda>adv k e. replicate k example_sample)\<rparr>"

abbreviation example_loader :: "nat loader" where
  "example_loader \<equiv> (\<lambda>d. Inr (([0], [0]), Suc d))"

section \<open>Properties of the shuffles\<close>

lemma shuffle_from_mset:
  "k < length x \<Longrightarrow> mset (fst (shuffle_from k x g)) = mset x"
proof (induction k arbitrary: x g)
  case 0
  then show ?case by simp
next
  case (Suc k)
  obtain j g' where r: "randbelow (Suc k + 1) g = (j, g')"
    by (cases "randbelow (Suc k + 1) g")
  then have "j < Suc k + 1"
    by (auto simp: randbelow_def)
  with Suc.prems have j: "j < length x" by simp
  have "mset (x[Suc k := x ! j, j := x ! Suc k]) = mset x"
    using mset_swap [OF j, of "Suc k"] Suc.prems by simp
  moreover have "k < length (x[Suc k := x ! j, j := x ! Suc k])"
    using Suc.prems by simp
  ultimately show ?case
    using Suc.IH [of "x[Suc k := x ! j, j := x ! Suc k]" g'] r by simp
qed

lemma shuffle_mset: "mset (fst (shuffle x g)) = mset x"
proof (cases x)
  case Nil
  then show ?thesis by (simp add: shuffle_def)
next
  case (Cons a as)
  then show ?thesis by (simp add: shuffle_def shuffle_from_mset)
qed

lemma shuffle_length: "length (fst (shuffle x g)) = length x"
  using shuffle_mset [of x g] by (metis size_mset)

lemma shuffle_set: "set (fst (shuffle x g)) = set x"
  using shuffle_mset [of x g] by (metis set_mset_mset)

section \<open>\<^verbatim>\<open>_block_shuffle\<close> is a permutation\<close>

lemma concat_blocks_take:
  "concat (map (\<lambda>k. take b (drop (k * b) xs)) [0..<m]) = take (m * b) xs"
proof (induction m)
  case 0
  then show ?case by simp
next
  case (Suc m)
  have "take (Suc m * b) xs = take (m * b) xs @ take b (drop (m * b) xs)"
    using take_add [of "m * b" b xs] by (simp add: add.commute)
  with Suc show ?case by simp
qed

lemma ceil_div_cover: "0 < b \<Longrightarrow> n \<le> ((n + b - 1) div b) * (b::nat)"
proof -
  assume b: "0 < b"
  have "n + b - 1 < ((n + b - 1) div b) * b + b"
    using b by (metis add.commute dividend_less_div_times mult.commute)
  then show ?thesis by linarith
qed

lemma concat_blocks:
  "0 < b \<Longrightarrow> concat (map (\<lambda>i. take b (drop i xs)) (range_step (length xs) b)) = xs"
  using ceil_div_cover [of b "length xs"]
  by (simp add: range_step_def comp_def concat_blocks_take)

lemma mset_concat_perm:
  "mset xss = mset yss \<Longrightarrow> mset (concat xss) = mset (concat yss)"
  by (metis mset_concat sum_mset_sum_list mset_map)

lemma shuffle_from_map:
  "k < length x \<Longrightarrow>
   shuffle_from k (map f x) g = (map f (fst (shuffle_from k x g)), snd (shuffle_from k x g))"
proof (induction k arbitrary: x g)
  case 0
  then show ?case by simp
next
  case (Suc k)
  obtain j g' where r: "randbelow (Suc k + 1) g = (j, g')"
    by (cases "randbelow (Suc k + 1) g")
  then have "j < Suc k + 1"
    by (auto simp: randbelow_def)
  with Suc.prems have j: "j < length x" by simp
  have "k < length (x[Suc k := x ! j, j := x ! Suc k])"
    using Suc.prems by simp
  from Suc.IH [OF this, of g'] show ?case
    using r j Suc.prems by (simp add: map_update)
qed

lemma shuffle_map:
  "shuffle (map f x) g = (map f (fst (shuffle x g)), snd (shuffle x g))"
proof (cases x)
  case Nil
  then show ?thesis by (simp add: shuffle_def)
next
  case (Cons a as)
  then have "length x - 1 < length x" by simp
  from shuffle_from_map [OF this, of f g] show ?thesis
    by (simp add: shuffle_def)
qed

lemma singleton_blocks:
  "map (\<lambda>i. take 1 (drop i xs)) (range_step (length xs) 1) = map (\<lambda>x. [x]) xs"
proof -
  have "map (\<lambda>i. take 1 (drop i xs)) [0..<length xs] = map (\<lambda>i. [xs ! i]) [0..<length xs]"
    by (rule map_cong) (auto simp: take_Suc_conv_app_nth hd_drop_conv_nth take_Suc)
  also have "\<dots> = map (\<lambda>x. [x]) (map (\<lambda>i. xs ! i) [0..<length xs])"
    by (simp add: comp_def)
  also have "\<dots> = map (\<lambda>x. [x]) xs"
    by (simp add: map_nth)
  finally show ?thesis
    by (simp add: range_step_def comp_def)
qed

lemma concat_singletons: "concat (map (\<lambda>x. [x]) ys) = ys"
  by (induction ys) auto

lemma single_block:
  assumes "0 < b" "length xs \<le> b"
  shows "block_shuffle xs b g = Inr (xs, g)"
proof (cases xs)
  case Nil
  with assms show ?thesis
    by (simp add: block_shuffle_def range_step_def shuffle_def)
next
  case (Cons a as)
  with assms have "(length xs + b - 1) div b = 1"
    by (simp add: div_eq_dividend_iff Suc_le_eq div_nat_eqI)
  with assms show ?thesis
    by (simp add: block_shuffle_def range_step_def shuffle_def)
qed

lemma block_shuffle_mset:
  assumes "0 < b"
  shows "\<exists>out g'. block_shuffle xs b g = Inr (out, g') \<and> mset out = mset xs"
proof -
  let ?blocks = "map (\<lambda>i. take b (drop i xs)) (range_step (length xs) b)"
  obtain bs' g' where s: "shuffle ?blocks g = (bs', g')"
    by (cases "shuffle ?blocks g")
  have "mset bs' = mset ?blocks"
    using shuffle_mset [of ?blocks g] s by simp
  then have "mset (concat bs') = mset (concat ?blocks)"
    by (rule mset_concat_perm)
  then have "mset (concat bs') = mset xs"
    using assms by (simp add: concat_blocks)
  then show ?thesis
    using assms s by (simp add: block_shuffle_def)
qed

lemma block_shuffle_one: "block_shuffle xs 1 g = Inr (shuffle xs g)"
proof -
  have "block_shuffle xs 1 g =
      (case shuffle (map (\<lambda>x. [x]) xs) g of (blocks', g') \<Rightarrow> Inr (concat blocks', g'))"
    unfolding block_shuffle_def singleton_blocks by simp
  also have "\<dots> = Inr (shuffle xs g)"
    unfolding shuffle_map by (simp add: concat_singletons)
  finally show ?thesis .
qed

text \<open>
  Claim C6. For every list, every positive block size and every state of the random
  generator, \<^verbatim>\<open>_block_shuffle\<close> returns a list with the same multiset of elements as its
  input. With block size 1 its result, and the generator it leaves, are those of
  \<^verbatim>\<open>random.shuffle\<close> on the list of elements itself; with a block size of at least the
  length of the list its result is the input list, and the generator is untouched.
\<close>

theorem block_shuffle_permutation:
  "0 < block_size \<longrightarrow>
     (\<exists>out g'. block_shuffle lst block_size g = Inr (out, g') \<and> mset out = mset lst) \<and>
     (block_size = 1 \<longrightarrow> block_shuffle lst block_size g = Inr (shuffle lst g)) \<and>
     (length lst \<le> block_size \<longrightarrow> block_shuffle lst block_size g = Inr (lst, g))"
  using block_shuffle_mset [of block_size lst g] block_shuffle_one [of lst g]
    single_block [of block_size lst g]
  by auto

theorem block_shuffle_permutation_witness:
  "(0 < (2::nat) \<and>
      (\<exists>out g'. block_shuffle [10, 20, 30, 40, 50::nat] 2 \<lparr>draws = \<lambda>k. 3 * k + 1, pos = 0\<rparr>
           = Inr (out, g') \<and> mset out = mset [10, 20, 30, 40, 50]) \<and>
      map_sum id fst (block_shuffle [10, 20, 30, 40, 50::nat] 2 \<lparr>draws = \<lambda>k. 3 * k + 1, pos = 0\<rparr>)
        = Inr [50, 10, 20, 30, 40]) \<and>
   ((1::nat) = 1 \<and>
      block_shuffle [10, 20, 30::nat] 1 \<lparr>draws = \<lambda>k. 3 * k + 1, pos = 0\<rparr>
        = Inr (shuffle [10, 20, 30] \<lparr>draws = \<lambda>k. 3 * k + 1, pos = 0\<rparr>) \<and>
      fst (shuffle [10, 20, 30::nat] \<lparr>draws = \<lambda>k. 3 * k + 1, pos = 0\<rparr>) = [30, 10, 20]) \<and>
   (length [10, 20, 30::nat] \<le> 5 \<and>
      block_shuffle [10, 20, 30::nat] 5 \<lparr>draws = \<lambda>k. 3 * k + 1, pos = 0\<rparr>
        = Inr ([10, 20, 30], \<lparr>draws = \<lambda>k. 3 * k + 1, pos = 0\<rparr>))"
proof -
  let ?g = "\<lparr>draws = \<lambda>k. 3 * k + 1, pos = 0\<rparr>"
  have a: "map_sum id fst (block_shuffle [10, 20, 30, 40, 50::nat] 2 ?g) = Inr [50, 10, 20, 30, 40]"
    by code_simp
  have b: "fst (shuffle [10, 20, 30::nat] ?g) = [30, 10, 20]"
    by code_simp
  show ?thesis
    using block_shuffle_permutation [of 2 "[10, 20, 30, 40, 50::nat]" ?g]
      block_shuffle_permutation [of 1 "[10, 20, 30::nat]" ?g]
      block_shuffle_permutation [of 5 "[10, 20, 30::nat]" ?g] a b
    by simp
qed

section \<open>The shards partition the store\<close>

lemma per_worker_cover: "0 < w \<Longrightarrow> len \<le> per_worker len w * w"
proof -
  assume w: "0 < w"
  have q: "0 \<le> real len / real w" by simp
  have "real len / real w \<le> real_of_int \<lceil>real len / real w\<rceil>"
    by (rule le_of_int_ceiling)
  moreover have "0 \<le> \<lceil>real len / real w\<rceil>"
  proof -
    from q have "- 1 < real len / real w" by linarith
    then show ?thesis by (simp only: zero_le_ceiling)
  qed
  ultimately have "real len / real w \<le> real (per_worker len w)"
    by (simp add: per_worker_def)
  then have "real len \<le> real (per_worker len w) * real w"
    using w by (simp add: divide_le_eq)
  then show ?thesis
    by (metis of_nat_le_iff of_nat_mult)
qed

lemma shard_range_worker:
  "0 < W \<Longrightarrow>
   shard_range len (Some \<lparr>num_workers = W, worker_id = w\<rparr>) =
     Inr (w * per_worker len W, min ((w + 1) * per_worker len W) len)"
  by (simp add: shard_range_def Let_def mult.commute add.commute)

lemma shards_cover:
  assumes "0 < W"
  shows "(\<Union>w\<in>{..<W}. {w * per_worker len W..<min ((w + 1) * per_worker len W) len}) = {0..<len}"
proof (intro equalityI subsetI)
  fix x
  assume "x \<in> (\<Union>w\<in>{..<W}. {w * per_worker len W..<min ((w + 1) * per_worker len W) len})"
  then show "x \<in> {0..<len}" by auto
next
  fix x
  assume "x \<in> {0..<len}"
  then have x: "x < len" by simp
  let ?c = "per_worker len W"
  from per_worker_cover [OF assms, of len] x have c: "x < ?c * W" by simp
  then have cpos: "0 < ?c" by (cases "?c") auto
  have "x div ?c < W"
    using c cpos by (simp add: less_mult_imp_div_less mult.commute)
  moreover have "(x div ?c) * ?c \<le> x"
    by simp
  moreover have "x < (x div ?c + 1) * ?c"
    using cpos by (simp add: dividend_less_div_times add.commute)
  ultimately show "x \<in> (\<Union>w\<in>{..<W}. {w * ?c..<min ((w + 1) * ?c) len})"
    using x by (intro UN_I [of "x div ?c"]) auto
qed

lemma shards_disjoint:
  assumes "w \<noteq> w'"
  shows "{w * c..<min ((w + 1) * c) len} \<inter> {w' * c..<min ((w' + 1) * c) (len::nat)} = {}"
proof -
  have less: "{a * c..<min ((a + 1) * c) len} \<inter> {b * c..<min ((b + 1) * c) len} = {}"
    if "a < b" for a b :: nat
  proof -
    from that have "(a + 1) * c \<le> b * c"
      by (intro mult_le_mono1) simp
    then show ?thesis by auto
  qed
  from assms consider "w < w'" | "w' < w" by linarith
  then show ?thesis
    using less [of w w'] less [of w' w] by cases auto
qed

text \<open>
  Claim C7. For every entry count and every positive number of workers \<open>W\<close>, worker \<open>w\<close>
  gets the range from \<open>w * ceil(length / W)\<close> to the minimum of
  \<open>(w + 1) * ceil(length / W)\<close> and the length; the ranges of the workers \<open>0, ..., W - 1\<close>
  are pairwise disjoint and their union is the whole range of indices below the length.
\<close>

theorem shards_partition:
  "0 < W \<longrightarrow>
     (\<forall>w. shard_range len (Some \<lparr>num_workers = W, worker_id = w\<rparr>) =
            Inr (w * nat \<lceil>real len / real W\<rceil>, min ((w + 1) * nat \<lceil>real len / real W\<rceil>) len)) \<and>
     (\<Union>w\<in>{..<W}. shard_indices len (Some \<lparr>num_workers = W, worker_id = w\<rparr>)) = {0..<len} \<and>
     (\<forall>w<W. \<forall>w'<W. w \<noteq> w' \<longrightarrow>
        shard_indices len (Some \<lparr>num_workers = W, worker_id = w\<rparr>)
        \<inter> shard_indices len (Some \<lparr>num_workers = W, worker_id = w'\<rparr>) = {})"
proof
  assume W: "0 < W"
  have pw: "per_worker len W = nat \<lceil>real len / real W\<rceil>"
    by (simp add: per_worker_def)
  have r: "shard_range len (Some \<lparr>num_workers = W, worker_id = w\<rparr>) =
      Inr (w * nat \<lceil>real len / real W\<rceil>, min ((w + 1) * nat \<lceil>real len / real W\<rceil>) len)" for w
    using shard_range_worker [OF W, of len w] pw by simp
  have i: "shard_indices len (Some \<lparr>num_workers = W, worker_id = w\<rparr>) =
      {w * per_worker len W..<min ((w + 1) * per_worker len W) len}" for w
    using r [of w] pw by (simp add: shard_indices_def)
  have u: "(\<Union>w\<in>{..<W}. shard_indices len (Some \<lparr>num_workers = W, worker_id = w\<rparr>)) = {0..<len}"
    using shards_cover [OF W, of len] by (simp only: i)
  have d: "shard_indices len (Some \<lparr>num_workers = W, worker_id = w\<rparr>)
        \<inter> shard_indices len (Some \<lparr>num_workers = W, worker_id = w'\<rparr>) = {}" if "w \<noteq> w'" for w w'
    using shards_disjoint [OF that, of "per_worker len W" len] by (simp only: i)
  from r u d show "(\<forall>w. shard_range len (Some \<lparr>num_workers = W, worker_id = w\<rparr>) =
            Inr (w * nat \<lceil>real len / real W\<rceil>, min ((w + 1) * nat \<lceil>real len / real W\<rceil>) len)) \<and>
     (\<Union>w\<in>{..<W}. shard_indices len (Some \<lparr>num_workers = W, worker_id = w\<rparr>)) = {0..<len} \<and>
     (\<forall>w<W. \<forall>w'<W. w \<noteq> w' \<longrightarrow>
        shard_indices len (Some \<lparr>num_workers = W, worker_id = w\<rparr>)
        \<inter> shard_indices len (Some \<lparr>num_workers = W, worker_id = w'\<rparr>) = {})"
    by blast
qed

theorem shards_partition_witness:
  "0 < (3::nat) \<and>
   shard_range 10 (Some \<lparr>num_workers = 3, worker_id = 0\<rparr>) = Inr (0, 4) \<and>
   shard_range 10 (Some \<lparr>num_workers = 3, worker_id = 1\<rparr>) = Inr (4, 8) \<and>
   shard_range 10 (Some \<lparr>num_workers = 3, worker_id = 2\<rparr>) = Inr (8, 10) \<and>
   (\<Union>w\<in>{..<3}. shard_indices 10 (Some \<lparr>num_workers = 3, worker_id = w\<rparr>)) = {0..<10} \<and>
   (0 < (3::nat) \<and> 2 < (3::nat) \<and> (0::nat) \<noteq> 2 \<and>
     shard_indices 10 (Some \<lparr>num_workers = 3, worker_id = 0\<rparr>)
     \<inter> shard_indices 10 (Some \<lparr>num_workers = 3, worker_id = 2\<rparr>) = {})"
proof -
  have c: "nat \<lceil>real 10 / real 3\<rceil> = 4"
    by simp
  have p: "0 < (3::nat)" by simp
  note t = shards_partition [of 3 10, rule_format, OF p]
  have r: "shard_range 10 (Some \<lparr>num_workers = 3, worker_id = w\<rparr>) = Inr (w * 4, min ((w + 1) * 4) 10)" for w
    using t c by simp
  show ?thesis
    using t r [of 0] r [of 1] r [of 2] by simp
qed

section \<open>The advantage estimator\<close>

lemma tsub_length: "length (tsub a b) = min (length a) (length b)"
  by (simp add: tsub_def)

lemma tsub_nth:
  "t < length (tsub a b) \<Longrightarrow> i < length (tsub a b ! t) \<Longrightarrow>
   tsub a b ! t ! i = a ! t ! i - b ! t ! i"
  by (simp add: tsub_def)

text \<open>
  Claim C1, as stated, fails: with normalization enabled the code does not divide by the
  population standard deviation. For the advantages 1, 1, 1, 5 of two steps in two
  environments the code divides by 2 + 1e-5 (the deviation with Bessel's correction is 2),
  the claim by sqrt 3 + 1e-5.
\<close>

theorem get_advantages_population_counterexample:
  "get_advantages example_config [[1, 1], [1, 5], [9, 9]] [[0, 0], [0, 0], [0, 0]]
   \<noteq> standardize_population (tsub (butlast [[1, 1], [1, 5], [9, 9]]) (butlast [[0, 0], [0, 0], [0, 0]]))"
proof -
  have l: "get_advantages example_config [[1, 1], [1, 5], [9, 9]] [[0, 0], [0, 0], [0, 0]] ! 1 ! 1
      = Some (3 / (2 + 1 / 100000))"
    by (simp add: get_advantages_def tsub_def tensor_mean_def tensor_std_def)
  have r: "standardize_population (tsub (butlast [[1, 1], [1, 5], [9, 9]]) (butlast [[0, 0], [0, 0], [0, 0]])) ! 1 ! 1
      = Some (3 / (sqrt 3 + 1 / 100000))"
    by (simp add: standardize_population_def population_std_def tsub_def)
  have "sqrt 3 < sqrt 4"
    by (simp only: real_sqrt_less_iff)
  then have "sqrt 3 < 2" by simp
  then have lt: "sqrt 3 < 2" by simp
  have "(3::real) / (2 + 1 / 100000) \<noteq> 3 / (sqrt 3 + 1 / 100000)"
  proof
    assume "(3::real) / (2 + 1 / 100000) = 3 / (sqrt 3 + 1 / 100000)"
    then have "(3::real) = 0 \<or> 2 + 1 / 100000 = sqrt 3 + 1 / 100000"
      by (simp only: divide_cancel_left)
    then have "sqrt 3 = 2" by linarith
    with lt show False by linarith
  qed
  with l r show ?thesis by auto
qed

text \<open>
  Claim C1, amended. The advantages are \<^verbatim>\<open>returns[:-1] - value_preds[:-1]\<close>, entry by entry.
  With normalization disabled \<^verbatim>\<open>get_advantages\<close> returns them unchanged. With normalization
  enabled and at least two entries in the tensor it returns them standardized over the whole
  tensor (all steps and all environments jointly): the mean of all entries is subtracted and
  the result divided by the standard deviation with Bessel's correction (the squared
  deviations divided by the number of entries minus one) plus 1e-5, a positive denominator.
  With fewer than two entries every entry of the result is NaN.
\<close>

theorem get_advantages_standardized:
  "(let a = tsub (butlast R) (butlast V);
        x = concat a;
        m = sum_list x / real (length x);
        sd = sqrt (sum_list (map (\<lambda>v. (v - m)\<^sup>2) x) / real (length x - 1))
    in length a = min (length R - 1) (length V - 1) \<and>
       (\<forall>t i. t < length a \<and> i < length (a ! t) \<longrightarrow> a ! t ! i = R ! t ! i - V ! t ! i) \<and>
       (\<not> use_normalized_advantage cfg \<longrightarrow> get_advantages cfg R V = map (map Some) a) \<and>
       (use_normalized_advantage cfg \<and> 2 \<le> length x \<longrightarrow>
          0 < sd + 1 / 100000 \<and>
          get_advantages cfg R V = map (map (\<lambda>v. Some ((v - m) / (sd + 1 / 100000)))) a) \<and>
       (use_normalized_advantage cfg \<and> length x < 2 \<longrightarrow>
          get_advantages cfg R V = map (map (\<lambda>v. None)) a))"
proof -
  let ?a = "tsub (butlast R) (butlast V)"
  let ?x = "concat ?a"
  let ?m = "sum_list ?x / real (length ?x)"
  let ?sd = "sqrt (sum_list (map (\<lambda>v. (v - ?m)\<^sup>2) ?x) / real (length ?x - 1))"
  have 1: "length ?a = min (length R - 1) (length V - 1)"
    by (simp add: tsub_length)
  have 2: "?a ! t ! i = R ! t ! i - V ! t ! i" if "t < length ?a" "i < length (?a ! t)" for t i
  proof -
    from that(1) have "t < length (butlast R)" "t < length (butlast V)"
      by (simp_all add: tsub_length)
    then have "butlast R ! t = R ! t" "butlast V ! t = V ! t"
      by (simp_all add: nth_butlast)
    with tsub_nth [OF that] show ?thesis by simp
  qed
  have 3: "get_advantages cfg R V = map (map Some) ?a" if "\<not> use_normalized_advantage cfg"
    using that by (simp add: get_advantages_def)
  have "0 \<le> ?sd"
    by (intro real_sqrt_ge_zero divide_nonneg_nonneg sum_list_nonneg) auto
  then have 4: "0 < ?sd + 1 / 100000"
    by linarith
  have 5: "get_advantages cfg R V = map (map (\<lambda>v. Some ((v - ?m) / (?sd + 1 / 100000)))) ?a"
    if "use_normalized_advantage cfg" "2 \<le> length ?x"
    using that by (auto simp add: get_advantages_def tensor_mean_def tensor_std_def Let_def)
  have 6: "get_advantages cfg R V = map (map (\<lambda>v. None)) ?a"
    if "use_normalized_advantage cfg" "length ?x < 2"
    using that by (auto simp add: get_advantages_def tensor_mean_def tensor_std_def Let_def)
  show ?thesis
    unfolding Let_def
    apply (intro conjI allI impI)
    subgoal by (rule 1)
    subgoal for t i using 2 [of t i] by simp
    subgoal by (rule 3)
    subgoal by (rule 4)
    subgoal using 5 by simp
    subgoal using 6 by simp
    done
qed

theorem get_advantages_standardized_witness:
  "(use_normalized_advantage example_config \<and>
    2 \<le> length (concat (tsub (butlast [[1, 1], [1, 5], [9, 9]]) (butlast [[0, 0], [0, 0], [0, 0]]))) \<and>
    get_advantages example_config [[1, 1], [1, 5], [9, 9]] [[0, 0], [0, 0], [0, 0]] =
      [[Some (- 1 / (2 + 1 / 100000)), Some (- 1 / (2 + 1 / 100000))],
       [Some (- 1 / (2 + 1 / 100000)), Some (3 / (2 + 1 / 100000))]]) \<and>
   (\<not> use_normalized_advantage (example_config\<lparr>use_normalized_advantage := False\<rparr>) \<and>
    get_advantages (example_config\<lparr>use_normalized_advantage := False\<rparr>)
      [[1, 1], [1, 5], [9, 9]] [[0, 0], [0, 0], [0, 0]] = [[Some 1, Some 1], [Some 1, Some 5]]) \<and>
   (use_normalized_advantage example_config \<and>
    length (concat (tsub (butlast [[3], [4]]) (butlast [[1], [1]]))) < 2 \<and>
    get_advantages example_config [[3], [4]] [[1], [1]] = [[None]]) \<and>
   ((1::nat) < length (tsub (butlast [[1, 1], [1, 5], [9, 9]]) (butlast [[0, 0], [0, 0], [0, 0]])) \<and>
    (1::nat) < length (tsub (butlast [[1, 1], [1, 5], [9, 9]]) (butlast [[0, 0], [0, 0], [0, 0]]) ! 1) \<and>
    tsub (butlast [[1, 1], [1, 5], [9, 9]]) (butlast [[0, 0], [0, 0], [0, 0]]) ! 1 ! 1 = 5 - 0)"
  using get_advantages_standardized [of "[[1, 1], [1, 5], [9, 9]]" "[[0, 0], [0, 0], [0, 0]]" example_config]
    get_advantages_standardized [of "[[1, 1], [1, 5], [9, 9]]" "[[0, 0], [0, 0], [0, 0]]"
      "example_config\<lparr>use_normalized_advantage := False\<rparr>"]
    get_advantages_standardized [of "[[3], [4]]" "[[1], [1]]" example_config]
  by (simp add: Let_def tsub_def)

text \<open>
  Claim C5. For a rollout of 5 steps in 2 environments (6 rows of returns and of value
  predictions) with every return 10 and every value prediction 8, the advantage is 2
  everywhere, its standard deviation is 0 and not NaN, and with normalization enabled
  \<^verbatim>\<open>get_advantages\<close> returns the tensor of 5 by 2 zeros: no entry is NaN, and the
  denominator is the epsilon.
\<close>

theorem get_advantages_constant_rollout:
  "tsub (butlast (replicate (5 + 1) (replicate 2 10))) (butlast (replicate (5 + 1) (replicate 2 8)))
     = replicate 5 (replicate 2 2) \<and>
   tensor_std (replicate 5 (replicate 2 2)) = Some 0 \<and>
   get_advantages (cfg\<lparr>use_normalized_advantage := True\<rparr>)
     (replicate (5 + 1) (replicate 2 10)) (replicate (5 + 1) (replicate 2 8))
     = replicate 5 (replicate 2 (Some 0))"
  by (simp add: get_advantages_def tsub_def tensor_mean_def tensor_std_def numeral_eq_Suc)

section \<open>The update loop\<close>

lemma minibatch_step_calls:
  "calls (minibatch_step cfg ext t s) = calls t @ call_sequence (total_loss cfg ext (net t) s)"
  by (simp add: minibatch_step_def call_sequence_def Let_def)

text \<open>
  The calls of \<^verbatim>\<open>WDDPPO.update\<close>: the seven calls of \<open>call_sequence\<close>, once for each
  minibatch that the generator yields, with the loss of that minibatch.
\<close>

lemma samples_trace:
  "calls (foldl (minibatch_step cfg ext) t ss) =
     calls t @ concat (map call_sequence (sample_losses cfg ext (net t) ss)) \<and>
   net (foldl (minibatch_step cfg ext) t ss) = foldl (train_step ext) (net t) ss"
proof (induction ss arbitrary: t)
  case Nil
  then show ?case by simp
next
  case (Cons s ss)
  have "net (minibatch_step cfg ext t s) = train_step ext (net t) s"
    by (simp add: minibatch_step_def Let_def)
  with Cons [of "minibatch_step cfg ext t s"] show ?case
    by (simp add: minibatch_step_calls)
qed

lemma epochs_trace:
  "calls (foldl (\<lambda>t e. foldl (minibatch_step cfg ext) t (generator e)) t es) =
     calls t @ concat (map call_sequence (epoch_losses cfg ext generator (net t) es))"
proof (induction es arbitrary: t)
  case Nil
  then show ?case by simp
next
  case (Cons e es)
  let ?t1 = "foldl (minibatch_step cfg ext) t (generator e)"
  note s = samples_trace [of cfg ext t "generator e"]
  from Cons [of ?t1] s show ?case by simp
qed

lemma sample_losses_length: "length (sample_losses cfg ext n ss) = length ss"
  by (induction ss arbitrary: n) auto

lemma epoch_losses_length:
  "\<forall>e\<in>set es. length (generator e) = k \<Longrightarrow>
   length (epoch_losses cfg ext generator n es) = length es * k"
  by (induction es arbitrary: n) (auto simp: sample_losses_length)

lemma update_loop_trace:
  "calls (update_loop cfg ext r n) =
     concat (map call_sequence
       (epoch_losses cfg ext
          (recurrent_generator r (get_advantages cfg (returns r) (value_preds r)) (num_mini_batch cfg))
          n [0..<ppo_epoch cfg]))"
  using epochs_trace [of cfg ext _ "loop_start n" "[0..<ppo_epoch cfg]"]
  by (simp add: update_loop_def Let_def loop_start_def)

lemma example_loss: "total_loss example_config example_policy n example_sample = 113 / 200"
  by (simp add: total_loss_def evaluate_def value_loss_of_def value_losses_def
      value_losses_clipped_def value_pred_clipped_def clamp_def action_loss_of_def
      offset_loss_of_def entropy_loss_of_def tmean_def Let_def power2_eq_square)

lemma example_trace:
  "calls (update_loop example_config example_policy example_rollouts 0) =
     concat (replicate 4 (call_sequence (113 / 200)))"
proof -
  have u: "[0..<2] = [0, Suc 0]" by (simp add: upt_rec)
  have r: "replicate 2 x = [x, x]" for x :: sample
    by (simp add: numeral_2_eq_2)
  have r4: "replicate 4 x = [x, x, x, x]" for x :: "event list"
    by (simp add: numeral_eq_Suc)
  show ?thesis
    unfolding update_loop_trace
    by (simp add: u r r4 example_loss)
qed

lemma epochs_without_samples:
  "\<forall>e\<in>set es. generator e = [] \<Longrightarrow>
   foldl (\<lambda>t e. foldl (minibatch_step cfg ext) t (generator e)) t es = t"
  by (induction es arbitrary: t) auto

lemma cw_epochs_without_samples:
  "\<forall>e\<in>set es. generator e = [] \<Longrightarrow> cw_epochs cfg ext nxt generator td es = Inr td"
  by (induction es arbitrary: td) (auto split: prod.splits)

lemma no_updates_no_samples:
  assumes "ppo_epoch cfg * num_mini_batch cfg = 0"
    and "\<forall>e<ppo_epoch cfg. length (generator e) = num_mini_batch cfg"
  shows "\<forall>e\<in>set [0..<ppo_epoch cfg]. generator e = []"
  using assms by (cases "ppo_epoch cfg = 0") auto

lemma averages_Inr:
  "averages cfg t = Inr avg \<Longrightarrow>
   0 < ppo_epoch cfg * num_mini_batch cfg \<and>
   avg = (value_loss_epoch t / real (ppo_epoch cfg * num_mini_batch cfg),
          action_loss_epoch t / real (ppo_epoch cfg * num_mini_batch cfg),
          entropy_loss_epoch t / real (ppo_epoch cfg * num_mini_batch cfg),
          pano_entropy_epoch t / real (ppo_epoch cfg * num_mini_batch cfg),
          offset_entropy_epoch t / real (ppo_epoch cfg * num_mini_batch cfg),
          distance_entropy_epoch t / real (ppo_epoch cfg * num_mini_batch cfg))"
  by (auto simp: averages_def Let_def split: if_splits)

text \<open>
  Claim C10. When \<open>ppo_epoch * num_mini_batch\<close> is zero (and the generator yields
  \<open>num_mini_batch\<close> samples in each epoch), both \<^verbatim>\<open>update\<close> methods make no call at all, leave
  the network parameters as they were, and raise \<open>ZeroDivisionError\<close> instead of returning.
  Whenever one of them returns its six-tuple, \<open>ppo_epoch * num_mini_batch\<close> is positive and
  each component is its accumulated sum divided by \<open>ppo_epoch * num_mini_batch\<close>.
\<close>

theorem update_zero_updates:
  "(ppo_epoch cfg * num_mini_batch cfg = 0 \<and>
    (\<forall>e<ppo_epoch cfg.
        length (recurrent_generator r (get_advantages cfg (returns r) (value_preds r))
                  (num_mini_batch cfg) e) = num_mini_batch cfg) \<longrightarrow>
      update cfg ext r n = (loop_start n, Inl ZeroDivisionError) \<and>
      calls (loop_start n) = [] \<and> net (loop_start n) = n \<and>
      cw_update_loop cfg ext nxt r n d = Inr (loop_start n, d) \<and>
      cw_update cfg ext nxt r n d = Inl ZeroDivisionError) \<and>
   (\<forall>t avg. update cfg ext r n = (t, Inr avg) \<longrightarrow>
      0 < ppo_epoch cfg * num_mini_batch cfg \<and>
      avg = (value_loss_epoch t / real (ppo_epoch cfg * num_mini_batch cfg),
             action_loss_epoch t / real (ppo_epoch cfg * num_mini_batch cfg),
             entropy_loss_epoch t / real (ppo_epoch cfg * num_mini_batch cfg),
             pano_entropy_epoch t / real (ppo_epoch cfg * num_mini_batch cfg),
             offset_entropy_epoch t / real (ppo_epoch cfg * num_mini_batch cfg),
             distance_entropy_epoch t / real (ppo_epoch cfg * num_mini_batch cfg))) \<and>
   (\<forall>t d' avg. cw_update cfg ext nxt r n d = Inr ((t, d'), avg) \<longrightarrow>
      0 < ppo_epoch cfg * num_mini_batch cfg \<and>
      avg = (value_loss_epoch t / real (ppo_epoch cfg * num_mini_batch cfg),
             action_loss_epoch t / real (ppo_epoch cfg * num_mini_batch cfg),
             entropy_loss_epoch t / real (ppo_epoch cfg * num_mini_batch cfg),
             pano_entropy_epoch t / real (ppo_epoch cfg * num_mini_batch cfg),
             offset_entropy_epoch t / real (ppo_epoch cfg * num_mini_batch cfg),
             distance_entropy_epoch t / real (ppo_epoch cfg * num_mini_batch cfg)))"
proof (intro conjI)
  let ?gen = "recurrent_generator r (get_advantages cfg (returns r) (value_preds r)) (num_mini_batch cfg)"
  show "ppo_epoch cfg * num_mini_batch cfg = 0 \<and>
    (\<forall>e<ppo_epoch cfg. length (?gen e) = num_mini_batch cfg) \<longrightarrow>
      update cfg ext r n = (loop_start n, Inl ZeroDivisionError) \<and>
      calls (loop_start n) = [] \<and> net (loop_start n) = n \<and>
      cw_update_loop cfg ext nxt r n d = Inr (loop_start n, d) \<and>
      cw_update cfg ext nxt r n d = Inl ZeroDivisionError"
  proof
    assume a: "ppo_epoch cfg * num_mini_batch cfg = 0 \<and>
      (\<forall>e<ppo_epoch cfg. length (?gen e) = num_mini_batch cfg)"
    then have z: "ppo_epoch cfg * num_mini_batch cfg = 0" by simp
    from a have e: "\<forall>e\<in>set [0..<ppo_epoch cfg]. ?gen e = []"
      using no_updates_no_samples [of cfg ?gen] by blast
    have l: "update_loop cfg ext r n = loop_start n"
      using epochs_without_samples [OF e] by (simp add: update_loop_def Let_def)
    have c: "cw_update_loop cfg ext nxt r n d = Inr (loop_start n, d)"
      using cw_epochs_without_samples [OF e] by (simp add: cw_update_loop_def Let_def)
    have v: "averages cfg (loop_start n) = Inl ZeroDivisionError"
      using z by (simp add: averages_def)
    show "update cfg ext r n = (loop_start n, Inl ZeroDivisionError) \<and>
      calls (loop_start n) = [] \<and> net (loop_start n) = n \<and>
      cw_update_loop cfg ext nxt r n d = Inr (loop_start n, d) \<and>
      cw_update cfg ext nxt r n d = Inl ZeroDivisionError"
      using l c v by (simp add: update_def cw_update_def loop_start_def)
  qed
  show "\<forall>t avg. update cfg ext r n = (t, Inr avg) \<longrightarrow>
      0 < ppo_epoch cfg * num_mini_batch cfg \<and>
      avg = (value_loss_epoch t / real (ppo_epoch cfg * num_mini_batch cfg),
             action_loss_epoch t / real (ppo_epoch cfg * num_mini_batch cfg),
             entropy_loss_epoch t / real (ppo_epoch cfg * num_mini_batch cfg),
             pano_entropy_epoch t / real (ppo_epoch cfg * num_mini_batch cfg),
             offset_entropy_epoch t / real (ppo_epoch cfg * num_mini_batch cfg),
             distance_entropy_epoch t / real (ppo_epoch cfg * num_mini_batch cfg))"
  proof (intro allI impI)
    fix t avg
    assume "update cfg ext r n = (t, Inr avg)"
    then have "averages cfg t = Inr avg"
      by (auto simp: update_def Let_def)
    then show "0 < ppo_epoch cfg * num_mini_batch cfg \<and>
      avg = (value_loss_epoch t / real (ppo_epoch cfg * num_mini_batch cfg),
             action_loss_epoch t / real (ppo_epoch cfg * num_mini_batch cfg),
             entropy_loss_epoch t / real (ppo_epoch cfg * num_mini_batch cfg),
             pano_entropy_epoch t / real (ppo_epoch cfg * num_mini_batch cfg),
             offset_entropy_epoch t / real (ppo_epoch cfg * num_mini_batch cfg),
             distance_entropy_epoch t / real (ppo_epoch cfg * num_mini_batch cfg))"
      by (rule averages_Inr)
  qed
  show "\<forall>t d' avg. cw_update cfg ext nxt r n d = Inr ((t, d'), avg) \<longrightarrow>
      0 < ppo_epoch cfg * num_mini_batch cfg \<and>
      avg = (value_loss_epoch t / real (ppo_epoch cfg * num_mini_batch cfg),
             action_loss_epoch t / real (ppo_epoch cfg * num_mini_batch cfg),
             entropy_loss_epoch t / real (ppo_epoch cfg * num_mini_batch cfg),
             pano_entropy_epoch t / real (ppo_epoch cfg * num_mini_batch cfg),
             offset_entropy_epoch t / real (ppo_epoch cfg * num_mini_batch cfg),
             distance_entropy_epoch t / real (ppo_epoch cfg * num_mini_batch cfg))"
  proof (intro allI impI)
    fix t d' avg
    assume "cw_update cfg ext nxt r n d = Inr ((t, d'), avg)"
    then have "averages cfg t = Inr avg"
      by (simp add: cw_update_def split: sum.splits prod.splits)
    then show "0 < ppo_epoch cfg * num_mini_batch cfg \<and>
      avg = (value_loss_epoch t / real (ppo_epoch cfg * num_mini_batch cfg),
             action_loss_epoch t / real (ppo_epoch cfg * num_mini_batch cfg),
             entropy_loss_epoch t / real (ppo_epoch cfg * num_mini_batch cfg),
             pano_entropy_epoch t / real (ppo_epoch cfg * num_mini_batch cfg),
             offset_entropy_epoch t / real (ppo_epoch cfg * num_mini_batch cfg),
             distance_entropy_epoch t / real (ppo_epoch cfg * num_mini_batch cfg))"
      by (rule averages_Inr)
  qed
qed

theorem update_zero_updates_witness:
  "(ppo_epoch (example_config\<lparr>ppo_epoch := 0\<rparr>) * num_mini_batch (example_config\<lparr>ppo_epoch := 0\<rparr>) = 0 \<and>
    update (example_config\<lparr>ppo_epoch := 0\<rparr>) example_policy example_rollouts 0
      = (loop_start 0, Inl ZeroDivisionError) \<and>
    cw_update (example_config\<lparr>ppo_epoch := 0\<rparr>) example_policy example_loader example_rollouts 0 0
      = Inl ZeroDivisionError) \<and>
   (ppo_epoch (example_config\<lparr>num_mini_batch := 0\<rparr>) * num_mini_batch (example_config\<lparr>num_mini_batch := 0\<rparr>) = 0 \<and>
    update (example_config\<lparr>num_mini_batch := 0\<rparr>) example_policy example_rollouts 0
      = (loop_start 0, Inl ZeroDivisionError)) \<and>
   (update example_config example_policy example_rollouts 0
      = (update_loop example_config example_policy example_rollouts 0,
         Inr (value_loss_epoch (update_loop example_config example_policy example_rollouts 0) / 4,
              action_loss_epoch (update_loop example_config example_policy example_rollouts 0) / 4,
              entropy_loss_epoch (update_loop example_config example_policy example_rollouts 0) / 4,
              pano_entropy_epoch (update_loop example_config example_policy example_rollouts 0) / 4,
              offset_entropy_epoch (update_loop example_config example_policy example_rollouts 0) / 4,
              distance_entropy_epoch (update_loop example_config example_policy example_rollouts 0) / 4)) \<and>
    0 < ppo_epoch example_config * num_mini_batch example_config)"
proof -
  let ?t = "update_loop example_config example_policy example_rollouts 0"
  have u: "update example_config example_policy example_rollouts 0
      = (?t, Inr (value_loss_epoch ?t / 4, action_loss_epoch ?t / 4, entropy_loss_epoch ?t / 4,
                  pano_entropy_epoch ?t / 4, offset_entropy_epoch ?t / 4,
                  distance_entropy_epoch ?t / 4))"
    by (simp add: update_def averages_def Let_def)
  note a = update_zero_updates [where cfg = "example_config\<lparr>ppo_epoch := 0\<rparr>"
      and ext = example_policy and r = example_rollouts and n = 0 and nxt = example_loader and d = 0]
  note b = update_zero_updates [where cfg = "example_config\<lparr>num_mini_batch := 0\<rparr>"
      and ext = example_policy and r = example_rollouts and n = 0 and nxt = example_loader and d = 0]
  note c = update_zero_updates [where cfg = example_config
      and ext = example_policy and r = example_rollouts and n = 0 and nxt = example_loader and d = 0]
  have 1: "update (example_config\<lparr>ppo_epoch := 0\<rparr>) example_policy example_rollouts 0
      = (loop_start 0, Inl ZeroDivisionError) \<and>
    cw_update (example_config\<lparr>ppo_epoch := 0\<rparr>) example_policy example_loader example_rollouts 0 0
      = Inl ZeroDivisionError"
    using a by simp
  have 2: "update (example_config\<lparr>num_mini_batch := 0\<rparr>) example_policy example_rollouts 0
      = (loop_start 0, Inl ZeroDivisionError)"
    using b by simp
  have 3: "0 < ppo_epoch example_config * num_mini_batch example_config"
    using c u by blast
  from 1 2 3 u show ?thesis by simp
qed

text \<open>
  When the loader raises at the first minibatch, \<^verbatim>\<open>CWDDPPO.update\<close> raises the same
  exception before any call on the optimizer.
\<close>

lemma cw_update_loader_raises:
  assumes "nxt d = Inl e" "0 < ppo_epoch cfg"
    and "recurrent_generator r (get_advantages cfg (returns r) (value_preds r))
           (num_mini_batch cfg) 0 \<noteq> []"
  shows "cw_update_loop cfg ext nxt r n d = Inl e \<and> cw_update cfg ext nxt r n d = Inl e"
proof -
  let ?gen = "recurrent_generator r (get_advantages cfg (returns r) (value_preds r)) (num_mini_batch cfg)"
  from assms(3) obtain s ss where g: "?gen 0 = s # ss"
    by (cases "?gen 0") auto
  from assms(2) have u: "[0..<ppo_epoch cfg] = 0 # [1..<ppo_epoch cfg]"
    by (simp add: upt_conv_Cons)
  have "cw_samples cfg ext nxt (loop_start n, d) (?gen 0) = Inl e"
    using assms(1) g by simp
  then have "cw_epochs cfg ext nxt ?gen (loop_start n, d) [0..<ppo_epoch cfg] = Inl e"
    unfolding u by simp
  then have "cw_update_loop cfg ext nxt r n d = Inl e"
    by (simp add: cw_update_loop_def Let_def)
  then show ?thesis
    by (simp add: cw_update_def)
qed

text \<open>
  Claim C2 holds for \<^verbatim>\<open>WDDPPO.update\<close> and fails on \<^verbatim>\<open>CWDDPPO.update\<close>, whose body is the
  same from \<^verbatim>\<open>evaluate_actions\<close> on. With two epochs of two minibatches each,
  \<^verbatim>\<open>CWDDPPO.update\<close> raises \<open>TypeError\<close> at \<^verbatim>\<open>next(self.diter)\<close> in its first minibatch, before
  \<^verbatim>\<open>zero_grad\<close>, the hooks, the backward pass and the optimizer step, and returns nothing;
  on the same configuration and rollout buffer \<^verbatim>\<open>WDDPPO.update\<close> makes the seven calls four
  times, 28 calls in the claimed order, each with the loss 113/200 of that minibatch.
\<close>

theorem cwddppo_update_raises_before_any_call:
  "cw_update_loop example_config example_policy diter_next example_rollouts 0 d = Inl TypeError \<and>
   cw_update example_config example_policy diter_next example_rollouts 0 d = Inl TypeError \<and>
   calls (update_loop example_config example_policy example_rollouts 0) =
     concat (replicate 4 (call_sequence (113 / 200))) \<and>
   length (calls (update_loop example_config example_policy example_rollouts 0)) =
     7 * (ppo_epoch example_config * num_mini_batch example_config)"
proof -
  have 1: "diter_next d = Inl TypeError"
    by (simp add: diter_next_def)
  have 2: "0 < ppo_epoch example_config" by simp
  have 3: "recurrent_generator example_rollouts
      (get_advantages example_config (returns example_rollouts) (value_preds example_rollouts))
      (num_mini_batch example_config) 0 \<noteq> []"
    by (simp add: numeral_2_eq_2)
  note r = cw_update_loader_raises [of diter_next d TypeError example_config example_rollouts
      example_policy 0, OF 1 2 3]
  have "length (concat (replicate 4 (call_sequence (113 / 200)))) = 28"
    by (simp add: call_sequence_def numeral_eq_Suc)
  with r example_trace show ?thesis by simp
qed

section \<open>The terms of the loss\<close>

lemma map2_replicate_right:
  "length x = k \<Longrightarrow> map2 f x (replicate k c) = map (\<lambda>a. f a c) x"
  by (induction x arbitrary: k) auto

lemma l1_loss_zeros:
  "length x = length off \<Longrightarrow> l1_loss x (zeros_like off) = (\<Sum>v\<leftarrow>x. \<bar>v\<bar>) / real (length off)"
  by (simp add: l1_loss_def zeros_like_def tmean_def map2_replicate_right)

lemma evaluate_offset_to_continuous:
  "evaluate (ext\<lparr>offset_to_continuous := f\<rparr>) n s = evaluate ext n s"
  by (simp add: evaluate_def)

lemma l1_loss_distance:
  "length x = length off \<Longrightarrow>
   l1_loss x (zeros_like off) = l1_distance x (zeros_like off) / real (length off)"
  by (simp add: l1_loss_def l1_distance_def tmean_def zeros_like_def)

text \<open>
  Claim C3, as stated, fails where the \<^verbatim>\<open>"offset"\<close> entry is present: the code multiplies
  the coefficient with \<^verbatim>\<open>l1_loss\<close>, whose default reduction is the mean, not with the L1
  distance. For the offset action 3, -1, the identity as decoding and the coefficient 1/2
  the term of the code is 1, the coefficient times the L1 distance is 2.
\<close>

theorem offset_l1_distance_counterexample:
  "offset_loss_of (example_config\<lparr>offset_regularize_coef := 1 / 2\<rparr>) example_policy 0
       (example_sample\<lparr>actions_batch := [''offset'' \<mapsto> [3, - 1]]\<rparr>) = 1 \<and>
   offset_regularize_coef (example_config\<lparr>offset_regularize_coef := 1 / 2\<rparr>)
     * l1_distance (offset_to_continuous example_policy 0 [3, - 1]) (zeros_like [3, - 1]) = 2 \<and>
   offset_loss_of (example_config\<lparr>offset_regularize_coef := 1 / 2\<rparr>) example_policy 0
       (example_sample\<lparr>actions_batch := [''offset'' \<mapsto> [3, - 1]]\<rparr>)
     \<noteq> offset_regularize_coef (example_config\<lparr>offset_regularize_coef := 1 / 2\<rparr>)
       * l1_distance (offset_to_continuous example_policy 0 [3, - 1]) (zeros_like [3, - 1])"
  by (simp add: offset_loss_of_def l1_loss_def l1_distance_def tmean_def zeros_like_def)

text \<open>
  Claim C3, amended. For a minibatch whose action batch has no \<^verbatim>\<open>"offset"\<close> entry the offset
  term is exactly zero, the total loss is value_loss + action_loss - entropy_loss, and the
  loss does not depend on \<^verbatim>\<open>offset_to_continuous\<close> at all. With the entry present the term is
  \<open>offset_regularize_coef\<close> times \<^verbatim>\<open>l1_loss\<close> of the continuous decoding of the offset action
  against zeros; for a decoding of the same length as the action that is the mean of the
  absolute values of the decoding, the L1 distance between the decoding and zero divided by
  the number of entries.
\<close>

theorem offset_regularization:
  "(actions_batch s ''offset'' = None \<longrightarrow>
      offset_loss_of cfg ext n s = 0 \<and>
      total_loss cfg ext n s =
        value_loss_of cfg (evaluate ext n s) s + action_loss_of cfg (evaluate ext n s) s
        - entropy_loss_of cfg (evaluate ext n s) \<and>
      (\<forall>f. total_loss cfg (ext\<lparr>offset_to_continuous := f\<rparr>) n s = total_loss cfg ext n s)) \<and>
   (\<forall>off. actions_batch s ''offset'' = Some off \<longrightarrow>
      offset_loss_of cfg ext n s =
        offset_regularize_coef cfg * l1_loss (offset_to_continuous ext n off) (zeros_like off) \<and>
      (length (offset_to_continuous ext n off) = length off \<longrightarrow>
         l1_loss (offset_to_continuous ext n off) (zeros_like off) =
           (\<Sum>v\<leftarrow>offset_to_continuous ext n off. \<bar>v\<bar>) / real (length off) \<and>
         l1_loss (offset_to_continuous ext n off) (zeros_like off) =
           l1_distance (offset_to_continuous ext n off) (zeros_like off) / real (length off)))"
proof (intro conjI impI allI)
  assume "actions_batch s ''offset'' = None"
  then show "offset_loss_of cfg ext n s = 0"
    by (simp add: offset_loss_of_def)
next
  assume "actions_batch s ''offset'' = None"
  then show "total_loss cfg ext n s =
        value_loss_of cfg (evaluate ext n s) s + action_loss_of cfg (evaluate ext n s) s
        - entropy_loss_of cfg (evaluate ext n s)"
    by (simp add: total_loss_def offset_loss_of_def Let_def)
next
  fix f
  assume "actions_batch s ''offset'' = None"
  then show "total_loss cfg (ext\<lparr>offset_to_continuous := f\<rparr>) n s = total_loss cfg ext n s"
    by (simp add: total_loss_def offset_loss_of_def Let_def evaluate_offset_to_continuous)
next
  fix off
  assume "actions_batch s ''offset'' = Some off"
  then show "offset_loss_of cfg ext n s =
        offset_regularize_coef cfg * l1_loss (offset_to_continuous ext n off) (zeros_like off)"
    by (simp add: offset_loss_of_def)
next
  fix off
  assume "length (offset_to_continuous ext n off) = length off"
  then show "l1_loss (offset_to_continuous ext n off) (zeros_like off) =
           (\<Sum>v\<leftarrow>offset_to_continuous ext n off. \<bar>v\<bar>) / real (length off)"
    by (rule l1_loss_zeros)
next
  fix off
  assume "length (offset_to_continuous ext n off) = length off"
  then show "l1_loss (offset_to_continuous ext n off) (zeros_like off) =
           l1_distance (offset_to_continuous ext n off) (zeros_like off) / real (length off)"
    by (rule l1_loss_distance)
qed

theorem offset_regularization_witness:
  "(actions_batch example_sample ''offset'' = None \<and>
    offset_loss_of example_config example_policy 0 example_sample = 0 \<and>
    total_loss example_config example_policy 0 example_sample =
      value_loss_of example_config (evaluate example_policy 0 example_sample) example_sample
      + action_loss_of example_config (evaluate example_policy 0 example_sample) example_sample
      - entropy_loss_of example_config (evaluate example_policy 0 example_sample)) \<and>
   (actions_batch (example_sample\<lparr>actions_batch := [''offset'' \<mapsto> [3, - 1]]\<rparr>) ''offset''
      = Some [3, - 1] \<and>
    length (offset_to_continuous example_policy 0 [3, - 1]) = length [3, - 1 :: real] \<and>
    offset_loss_of (example_config\<lparr>offset_regularize_coef := 1 / 2\<rparr>) example_policy 0
      (example_sample\<lparr>actions_batch := [''offset'' \<mapsto> [3, - 1]]\<rparr>) = 1)"
proof -
  note a = offset_regularization [where s = example_sample and cfg = example_config
      and ext = example_policy and n = 0]
  note b = offset_regularization [where s = "example_sample\<lparr>actions_batch := [''offset'' \<mapsto> [3, - 1]]\<rparr>"
      and cfg = "example_config\<lparr>offset_regularize_coef := 1 / 2\<rparr>"
      and ext = example_policy and n = 0]
  have 1: "actions_batch example_sample ''offset'' = None" by simp
  have 2: "actions_batch (example_sample\<lparr>actions_batch := [''offset'' \<mapsto> [3, - 1]]\<rparr>) ''offset''
      = Some [3, - 1]" by simp
  have 3: "length (offset_to_continuous example_policy 0 [3, - 1]) = length [3, - 1 :: real]" by simp
  from b 2 3 have "offset_loss_of (example_config\<lparr>offset_regularize_coef := 1 / 2\<rparr>) example_policy 0
      (example_sample\<lparr>actions_batch := [''offset'' \<mapsto> [3, - 1]]\<rparr>) = 1"
    by simp
  with a 1 2 3 show ?thesis by simp
qed

lemma map2_same: "map2 f x x = map (\<lambda>a. f a a) x"
  by (induction x) auto

lemma map2_map_right: "map2 f x (map h x) = map (\<lambda>a. f a (h a)) x"
  by (induction x) auto

lemma map2_flip: "map2 f x y = map2 (\<lambda>b a. f a b) y x"
  by (induction x arbitrary: y) (auto simp: zip_Cons1 zip_Cons split: list.splits)

lemma clamp_zero: "0 \<le> c \<Longrightarrow> clamp (- c) c 0 = 0"
  by (simp add: clamp_def)

lemma value_pred_clipped_same:
  assumes "0 \<le> clip_param cfg" "values_out out = value_preds_batch s"
  shows "value_pred_clipped cfg out s = values_out out"
  using assms
  by (simp add: value_pred_clipped_def map2_same clamp_zero comp_def map2_map_right)

lemma squared_error_flip:
  "map2 (\<lambda>r v. (r - v)\<^sup>2) y x = map2 (\<lambda>v r. (v - r :: real)\<^sup>2) x y"
  using map2_flip [of "\<lambda>r v. (r - v)\<^sup>2" y x] by (simp add: power2_commute)

text \<open>
  Claim C4. In the branch with the clipped value loss, for a clipping radius \<open>clip_param\<close>
  that is not negative: when the values of the network equal \<^verbatim>\<open>value_preds_batch\<close> entry by
  entry, the clipped squared errors equal the unclipped ones, and the value loss of the
  clipped branch equals that of the unclipped branch. In general the clipped squared error is
  not at least the unclipped one: for value 1, old prediction 0, return 0 and radius 1/5 it
  is 1/25 against 1.
\<close>

theorem clipped_value_loss_no_update:
  "(0 \<le> clip_param cfg \<and> values_out out = value_preds_batch s \<longrightarrow>
      value_losses_clipped cfg out s = value_losses out s \<and>
      value_loss_of (cfg\<lparr>use_clipped_value_loss := True\<rparr>) out s
        = value_loss_of (cfg\<lparr>use_clipped_value_loss := False\<rparr>) out s) \<and>
   value_losses_clipped example_config
       \<lparr>values_out = [1], action_log_probs = [0], pano = [0], offset = [0], distance = [0]\<rparr>
       (example_sample\<lparr>value_preds_batch := [0], return_batch := [0]\<rparr>) ! 0
     < value_losses
       \<lparr>values_out = [1], action_log_probs = [0], pano = [0], offset = [0], distance = [0]\<rparr>
       (example_sample\<lparr>value_preds_batch := [0], return_batch := [0]\<rparr>) ! 0"
proof (intro conjI impI)
  assume a: "0 \<le> clip_param cfg \<and> values_out out = value_preds_batch s"
  then have c: "value_pred_clipped cfg out s = values_out out"
    by (simp add: value_pred_clipped_same)
  then show l: "value_losses_clipped cfg out s = value_losses out s"
    by (simp add: value_losses_clipped_def value_losses_def)
  have c': "value_pred_clipped (cfg\<lparr>use_clipped_value_loss := True\<rparr>) out s = values_out out"
    using c by (simp add: value_pred_clipped_def)
  have "value_losses_clipped (cfg\<lparr>use_clipped_value_loss := True\<rparr>) out s = value_losses out s"
    using c' by (simp add: value_losses_clipped_def value_losses_def)
  then show "value_loss_of (cfg\<lparr>use_clipped_value_loss := True\<rparr>) out s
        = value_loss_of (cfg\<lparr>use_clipped_value_loss := False\<rparr>) out s"
    by (simp add: value_loss_of_def map2_same squared_error_flip value_losses_def)
next
  show "value_losses_clipped example_config
       \<lparr>values_out = [1], action_log_probs = [0], pano = [0], offset = [0], distance = [0]\<rparr>
       (example_sample\<lparr>value_preds_batch := [0], return_batch := [0]\<rparr>) ! 0
     < value_losses
       \<lparr>values_out = [1], action_log_probs = [0], pano = [0], offset = [0], distance = [0]\<rparr>
       (example_sample\<lparr>value_preds_batch := [0], return_batch := [0]\<rparr>) ! 0"
    by (simp add: value_losses_clipped_def value_losses_def value_pred_clipped_def clamp_def
        power2_eq_square)
qed

theorem clipped_value_loss_no_update_witness:
  "0 \<le> clip_param example_config \<and>
   values_out (evaluate example_policy 0 example_sample) = value_preds_batch example_sample \<and>
   value_losses_clipped example_config (evaluate example_policy 0 example_sample) example_sample
     = [1, 4] \<and>
   value_losses (evaluate example_policy 0 example_sample) example_sample = [1, 4] \<and>
   value_loss_of (example_config\<lparr>use_clipped_value_loss := True\<rparr>)
       (evaluate example_policy 0 example_sample) example_sample
     = value_loss_of (example_config\<lparr>use_clipped_value_loss := False\<rparr>)
       (evaluate example_policy 0 example_sample) example_sample"
proof -
  have h: "0 \<le> clip_param example_config \<and>
      values_out (evaluate example_policy 0 example_sample) = value_preds_batch example_sample"
    by (simp add: evaluate_def)
  have v: "value_losses (evaluate example_policy 0 example_sample) example_sample = [1, 4]"
    by (simp add: value_losses_def evaluate_def)
  note t = clipped_value_loss_no_update [where cfg = example_config
      and out = "evaluate example_policy 0 example_sample" and s = example_sample]
  from t h v show ?thesis by simp
qed

section \<open>The streaming dataset\<close>

declare fill.simps [simp del]

lemma fill_popped:
  "fill st psz ord np rd = Inr (ord', np', rd') \<Longrightarrow>
   \<exists>popped. rd' = rd @ popped \<and> mset popped + mset ord' = mset ord"
proof (induction st psz ord np rd rule: fill.induct)
  case (1 st psz ord np rd)
  show ?case
  proof (cases "length np < psz \<and> ord \<noteq> []")
    case False
    with "1.prems" have "ord' = ord \<and> rd' = rd"
      by (auto simp: fill.simps [of st psz ord np rd] split: if_splits)
    then show ?thesis by simp
  next
    case True
    with "1.prems" obtain pairs where p: "st (last ord) = Some pairs"
      and r: "fill st psz (butlast ord) (np @ pairs) (rd @ [last ord]) = Inr (ord', np', rd')"
      by (auto simp: fill.simps [of st psz ord np rd] split: option.splits)
    from "1.IH" [OF _ _ p r] True obtain popped where
      q: "rd' = (rd @ [last ord]) @ popped" "mset popped + mset ord' = mset (butlast ord)"
      by auto
    from True have "mset ord = add_mset (last ord) (mset (butlast ord))"
      by (metis append_butlast_last_id mset_append add_mset_add_single mset.simps(1) mset.simps(2) union_mset_add_mset_right add.right_neutral)
    with q have "rd' = rd @ (last ord # popped) \<and> mset (last ord # popped) + mset ord' = mset ord"
      by simp
    then show ?thesis by blast
  qed
qed

lemma fill_total:
  "\<forall>i\<in>set ord. st i \<noteq> None \<Longrightarrow> \<exists>ord' np' rd'. fill st psz ord np rd = Inr (ord', np', rd')"
proof (induction st psz ord np rd rule: fill.induct)
  case (1 st psz ord np rd)
  show ?case
  proof (cases "length np < psz \<and> ord \<noteq> []")
    case False
    then show ?thesis
      by (auto simp: fill.simps [of st psz ord np rd])
  next
    case True
    with "1.prems" obtain pairs where p: "st (last ord) = Some pairs"
      by (metis last_in_set not_None_eq)
    have "\<forall>i\<in>set (butlast ord). st i \<noteq> None"
      using "1.prems" by (meson in_set_butlastD)
    from "1.IH" [OF _ _ p this] True obtain ord' np' rd' where
      "fill st psz (butlast ord) (np @ pairs) (rd @ [last ord]) = Inr (ord', np', rd')"
      by auto
    with True p have "fill st psz ord np rd = Inr (ord', np', rd')"
      by (subst fill.simps) simp
    then show ?thesis by blast
  qed
qed

lemma fill_grows:
  "fill st psz ord np rd = Inr (ord', np', rd') \<Longrightarrow> \<exists>more. np' = np @ more"
proof (induction st psz ord np rd rule: fill.induct)
  case (1 st psz ord np rd)
  show ?case
  proof (cases "length np < psz \<and> ord \<noteq> []")
    case False
    with "1.prems" have "np' = np"
      by (auto simp: fill.simps [of st psz ord np rd] split: if_splits)
    then show ?thesis by simp
  next
    case True
    with "1.prems" obtain pairs where p: "st (last ord) = Some pairs"
      and r: "fill st psz (butlast ord) (np @ pairs) (rd @ [last ord]) = Inr (ord', np', rd')"
      by (auto simp: fill.simps [of st psz ord np rd] split: option.splits)
    from "1.IH" [OF _ _ p r] True obtain more where "np' = (np @ pairs) @ more"
      by auto
    then show ?thesis by simp
  qed
qed

lemma fill_nonempty:
  assumes "fill st psz ord [] rd = Inr (ord', np', rd')"
    and "ord \<noteq> []" "0 < psz"
    and "\<forall>i\<in>set ord. \<forall>pairs. st i = Some pairs \<longrightarrow> pairs \<noteq> []"
  shows "np' \<noteq> []"
proof -
  from assms(1-3) obtain pairs where p: "st (last ord) = Some pairs"
    and r: "fill st psz (butlast ord) ([] @ pairs) (rd @ [last ord]) = Inr (ord', np', rd')"
    by (auto simp: fill.simps [of st psz ord "[]" rd] split: option.splits)
  have "pairs \<noteq> []"
    using last_in_set [OF assms(2)] p assms(4) by blast
  moreover from fill_grows [OF r] obtain more where "np' = ([] @ pairs) @ more"
    by blast
  ultimately show ?thesis by simp
qed

lemma new_ordering_result:
  assumes "0 < preload_size d"
  shows "\<exists>ord g'. new_ordering d = Inr (d\<lparr>load_ordering := ord, gen := g'\<rparr>) \<and>
           mset ord = mset [start d..<end_ix d]"
proof -
  from block_shuffle_mset [OF assms, of "[start d..<end_ix d]" "gen d"] obtain out g' where
    "block_shuffle [start d..<end_ix d] (preload_size d) (gen d) = Inr (out, g')"
    "mset out = mset [start d..<end_ix d]"
    by blast
  then have "new_ordering d = Inr (d\<lparr>load_ordering := rev out, gen := g'\<rparr>) \<and>
      mset (rev out) = mset [start d..<end_ix d]"
    by (simp add: new_ordering_def)
  then show ?thesis by blast
qed

lemma new_ordering_Inr:
  assumes "new_ordering d = Inr d1"
  shows "\<exists>ord g'. d1 = d\<lparr>load_ordering := ord, gen := g'\<rparr> \<and> mset ord = mset [start d..<end_ix d]"
proof -
  from assms have "0 < preload_size d"
    by (auto simp: new_ordering_def block_shuffle_def split: if_splits)
  from new_ordering_result [OF this] assms show ?thesis by auto
qed

lemma pop_preload_Inr:
  "pop_preload d = Inr (p, d') \<Longrightarrow> d' = d\<lparr>preload := butlast (preload d)\<rparr> \<and> preload d \<noteq> []"
  by (auto simp: pop_preload_def split: if_splits)

text \<open>What a call of \<open>load_next\<close> that returns has done to the ordering and the read log.\<close>

lemma load_next_Inr:
  assumes "load_next st d = Inr (p, d')"
  shows "start d' = start d \<and> end_ix d' = end_ix d \<and> batch_size d' = batch_size d \<and>
      preload_size d' = preload_size d \<and> entries d' = entries d \<and>
      ((reads d' = reads d \<and> load_ordering d' = load_ordering d) \<or>
       (\<exists>ord1 popped.
          (if load_ordering d = [] then mset ord1 = mset [start d..<end_ix d]
           else ord1 = load_ordering d) \<and>
          reads d' = reads d @ popped \<and> mset popped + mset (load_ordering d') = mset ord1))"
proof (cases "length (preload d) < batch_size d")
  case False
  with assms have "pop_preload d = Inr (p, d')"
    by (simp add: load_next_def)
  from pop_preload_Inr [OF this] show ?thesis by simp
next
  case True
  let ?r = "if load_ordering d = [] then new_ordering d else Inr d"
  from assms True obtain d1 where d1: "?r = Inr d1"
    by (auto simp: load_next_def split: sum.splits)
  have f1: "start d1 = start d \<and> end_ix d1 = end_ix d \<and> batch_size d1 = batch_size d \<and>
      preload_size d1 = preload_size d \<and> entries d1 = entries d \<and> reads d1 = reads d \<and>
      (if load_ordering d = [] then mset (load_ordering d1) = mset [start d..<end_ix d]
       else load_ordering d1 = load_ordering d)"
  proof (cases "load_ordering d = []")
    case True
    with d1 have "new_ordering d = Inr d1" by simp
    from new_ordering_Inr [OF this] True show ?thesis by auto
  next
    case False
    with d1 show ?thesis by simp
  qed
  from assms True d1 obtain ord np rd where
    f: "fill st (preload_size d1) (load_ordering d1) [] (reads d1) = Inr (ord, np, rd)"
    by (auto simp: load_next_def split: sum.splits)
  from assms True d1 f obtain idxs g2 where
    pp: "pop_preload (d1\<lparr>load_ordering := ord, reads := rd, gen := g2,
           preload := preload d1 @ map (\<lambda>idx. np ! idx) idxs\<rparr>) = Inr (p, d')"
    by (auto simp: load_next_def split: sum.splits prod.splits)
  from fill_popped [OF f] obtain popped where
    po: "rd = reads d1 @ popped" "mset popped + mset ord = mset (load_ordering d1)"
    by blast
  from pop_preload_Inr [OF pp] have
    d': "start d' = start d1" "end_ix d' = end_ix d1" "batch_size d' = batch_size d1"
      "preload_size d' = preload_size d1" "entries d' = entries d1"
      "reads d' = rd" "load_ordering d' = ord"
    by simp_all
  have "(if load_ordering d = [] then mset (load_ordering d1) = mset [start d..<end_ix d]
           else load_ordering d1 = load_ordering d) \<and>
          reads d' = reads d @ popped \<and> mset popped + mset (load_ordering d') = mset (load_ordering d1)"
    using f1 po d' by simp
  then show ?thesis
    using f1 d' by (intro conjI disjI2 exI [of _ "load_ordering d1"] exI [of _ popped]) simp_all
qed

lemma pass_structure_step:
  assumes "pass_structure sh rd ord"
    and "if ord = [] then mset ord1 = mset sh else ord1 = ord"
    and "mset popped + mset ord' = mset ord1"
  shows "pass_structure sh (rd @ popped) ord'"
proof -
  from assms(1) obtain passes cur where
    s: "rd = concat passes @ cur" "\<forall>p\<in>set passes. mset p = mset sh" "mset cur + mset ord = mset sh"
    by (auto simp: pass_structure_def)
  show ?thesis
  proof (cases "ord = []")
    case False
    with assms(2,3) s have "rd @ popped = concat passes @ (cur @ popped)"
      "mset (cur @ popped) + mset ord' = mset sh"
      by (simp_all add: ac_simps)
    with s(2) show ?thesis
      unfolding pass_structure_def by blast
  next
    case True
    with s have c: "mset cur = mset sh" by simp
    from True assms(2,3) have "rd @ popped = concat (passes @ [cur]) @ popped"
      "mset popped + mset ord' = mset sh"
      using s by simp_all
    moreover have "\<forall>p\<in>set (passes @ [cur]). mset p = mset sh"
      using s(2) c by simp
    ultimately show ?thesis
      unfolding pass_structure_def by blast
  qed
qed

lemma next_ds_pass_structure:
  assumes "next_ds st d = Inr (p, d')"
    and "pass_structure [start d..<end_ix d] (reads d) (load_ordering d)"
  shows "pass_structure [start d'..<end_ix d'] (reads d') (load_ordering d')"
proof -
  from assms(1) have l: "load_next st d = Inr (p, d')"
    by (simp add: next_ds_def)
  note r = load_next_Inr [OF l]
  then have se: "start d' = start d" "end_ix d' = end_ix d" by simp_all
  from r consider "reads d' = reads d \<and> load_ordering d' = load_ordering d"
    | ord1 popped where
      "if load_ordering d = [] then mset ord1 = mset [start d..<end_ix d]
       else ord1 = load_ordering d"
      "reads d' = reads d @ popped" "mset popped + mset (load_ordering d') = mset ord1"
    by blast
  then show ?thesis
  proof cases
    case 1
    with assms(2) se show ?thesis by simp
  next
    case 2
    from pass_structure_step [OF assms(2) 2(1) 2(3)] 2(2) se show ?thesis by simp
  qed
qed

lemma take_items_pass_structure:
  "take_items st n d = Inr (ps, d') \<Longrightarrow>
   pass_structure [start d..<end_ix d] (reads d) (load_ordering d) \<Longrightarrow>
   pass_structure [start d'..<end_ix d'] (reads d') (load_ordering d') \<and> length ps = n"
proof (induction n arbitrary: d ps)
  case 0
  then show ?case by simp
next
  case (Suc n)
  from Suc.prems(1) obtain p d1 ps1 where
    a: "next_ds st d = Inr (p, d1)" and b: "take_items st n d1 = Inr (ps1, d')" and c: "ps = p # ps1"
    by (auto split: sum.splits)
  from next_ds_pass_structure [OF a Suc.prems(2)] Suc.IH [OF b] c show ?case by simp
qed

lemma iter_ds_pass_structure:
  assumes "iter_ds d0 wi = Inr d" "reads d0 = []"
  shows "pass_structure [start d..<end_ix d] (reads d) (load_ordering d)"
proof -
  from assms(1) obtain s e where
    n: "new_ordering (d0\<lparr>start := s, end_ix := e\<rparr>) = Inr d"
    by (auto simp: iter_ds_def split: sum.splits)
  from new_ordering_Inr [OF n] assms(2) have
    "start d = s" "end_ix d = e" "reads d = []" "mset (load_ordering d) = mset [s..<e]"
    by auto
  then have "reads d = concat [] @ [] \<and> (\<forall>p\<in>set []. mset p = mset [start d..<end_ix d]) \<and>
      mset [] + mset (load_ordering d) = mset [start d..<end_ix d]"
    by simp
  then show ?thesis
    unfolding pass_structure_def by blast
qed

lemma count_concat_passes:
  "\<forall>p\<in>set passes. mset p = mset sh \<Longrightarrow>
   count (mset (concat passes)) i = length passes * count (mset sh) i \<and>
   length (concat passes) = length passes * length sh"
proof (induction passes)
  case Nil
  then show ?case by simp
next
  case (Cons p passes)
  then have "mset p = mset sh" by simp
  then have "length p = length sh" by (metis size_mset)
  with Cons show ?case by simp
qed

lemma whole_multiples:
  assumes "a * n + c = k * (n::nat)" "c \<le> n" "0 < n"
  shows "(c = 0 \<and> k = a) \<or> (c = n \<and> k = Suc a)"
proof (cases "k \<le> a")
  case True
  then have "k * n \<le> a * n" by (rule mult_le_mono1)
  with assms(1) have "c = 0" "k * n = a * n" by linarith+
  with assms(3) show ?thesis by simp
next
  case False
  then have "Suc a \<le> k" by simp
  then have "Suc a * n \<le> k * n" by (rule mult_le_mono1)
  with assms(1,2) have c: "c = n" by simp
  with assms(1) have "k * n = Suc a * n" by simp
  then have "k = Suc a"
    using assms(3) by (simp only: mult_cancel2) simp
  with c show ?thesis by simp
qed

lemma pass_structure_count:
  assumes "pass_structure sh rd ord" "distinct sh" "i \<in> set sh"
    and "length rd = k * length sh"
  shows "count (mset rd) i = k"
proof -
  from assms(1) obtain passes cur where
    s: "rd = concat passes @ cur" "\<forall>p\<in>set passes. mset p = mset sh" "mset cur + mset ord = mset sh"
    by (auto simp: pass_structure_def)
  from assms(2,3) have one: "count (mset sh) i = 1"
    by (simp add: distinct_count_atmost_1)
  from assms(3) have n: "0 < length sh"
    by (cases sh) auto
  note cp = count_concat_passes [OF s(2), of i]
  from s(3) have sub: "mset cur \<subseteq># mset sh"
    by (metis mset_subset_eq_add_left)
  then have "length cur \<le> length sh"
    by (metis size_mset size_mset_mono)
  moreover from s(1) cp assms(4) have "length passes * length sh + length cur = k * length sh"
    by simp
  ultimately consider "length cur = 0" "k = length passes"
    | "length cur = length sh" "k = Suc (length passes)"
    using whole_multiples [of "length passes" "length sh" "length cur" k] n by blast
  then show ?thesis
  proof cases
    case 1
    with s(1) cp one show ?thesis by simp
  next
    case 2
    with sub have "mset cur = mset sh"
      by (metis size_mset mset_subset_size subset_mset.less_le less_irrefl)
    with s(1) cp one 2 show ?thesis by simp
  qed
qed

lemma block_shuffle_length:
  assumes "0 < b"
  shows "\<exists>out g'. block_shuffle xs b g = Inr (out, g') \<and> length out = length xs"
proof -
  from block_shuffle_mset [OF assms, of xs g] obtain out g' where
    "block_shuffle xs b g = Inr (out, g')" "mset out = mset xs"
    by blast
  moreover from this(2) have "length out = length xs"
    by (metis size_mset)
  ultimately show ?thesis by blast
qed

lemma reorder_fields:
  assumes "(if load_ordering d = [] then new_ordering d else Inr d) = Inr d1"
  shows "start d1 = start d \<and> end_ix d1 = end_ix d \<and> batch_size d1 = batch_size d \<and>
      preload_size d1 = preload_size d \<and> entries d1 = entries d \<and> reads d1 = reads d \<and>
      preload d1 = preload d \<and>
      (if load_ordering d = [] then mset (load_ordering d1) = mset [start d..<end_ix d]
       else load_ordering d1 = load_ordering d)"
proof (cases "load_ordering d = []")
  case True
  with assms have "new_ordering d = Inr d1" by simp
  from new_ordering_Inr [OF this] True show ?thesis by auto
next
  case False
  with assms show ?thesis by simp
qed

lemma load_next_refill:
  assumes "length (preload d) < batch_size d"
    and "(if load_ordering d = [] then new_ordering d else Inr d) = Inr d1"
    and "fill st (preload_size d1) (load_ordering d1) [] (reads d1) = Inr (ord, np, rd)"
    and "preload d \<noteq> [] \<or> np \<noteq> []"
  shows "\<exists>p d'. load_next st d = Inr (p, d') \<and> load_ordering d' = ord \<and> reads d' = rd \<and>
      start d' = start d \<and> end_ix d' = end_ix d \<and> batch_size d' = batch_size d \<and>
      preload_size d' = preload_size d \<and> entries d' = entries d \<and>
      length (preload d') = length (preload d) + length np - 1"
proof -
  note f = reorder_fields [OF assms(2)]
  from assms(1) f have b: "0 < batch_size d1" by simp
  obtain so g1 where s: "shuffle [0..<length np] (gen d1) = (so, g1)"
    by (cases "shuffle [0..<length np] (gen d1)")
  then have ls: "length so = length np"
    using shuffle_length [of "[0..<length np]" "gen d1"] by simp
  from block_shuffle_length [OF b, of so g1] obtain idxs g2 where
    bs: "block_shuffle so (batch_size d1) g1 = Inr (idxs, g2)" and li: "length idxs = length so"
    by blast
  let ?d2 = "d1\<lparr>load_ordering := ord, reads := rd, gen := g2,
      preload := preload d1 @ map (\<lambda>idx. np ! idx) idxs\<rparr>"
  have l: "load_next st d = pop_preload ?d2"
    using assms(1,2,3) s bs by (simp add: load_next_def)
  have ne: "preload ?d2 \<noteq> []"
    using assms(4) f ls li by auto
  then have "pop_preload ?d2 = Inr (last (preload ?d2), ?d2\<lparr>preload := butlast (preload ?d2)\<rparr>)"
    by (simp add: pop_preload_def)
  with l have "load_next st d = Inr (last (preload ?d2), ?d2\<lparr>preload := butlast (preload ?d2)\<rparr>)"
    by simp
  moreover have "length (butlast (preload ?d2)) = length (preload d) + length np - 1"
    using f ls li by simp
  ultimately show ?thesis
    using f by (intro exI [of _ "last (preload ?d2)"]
        exI [of _ "?d2\<lparr>preload := butlast (preload ?d2)\<rparr>"]) simp
qed

lemma load_next_pop:
  assumes "\<not> length (preload d) < batch_size d" "0 < batch_size d"
  shows "load_next st d = Inr (last (preload d), d\<lparr>preload := butlast (preload d)\<rparr>)"
proof -
  from assms have "preload d \<noteq> []" by auto
  with assms(1) show ?thesis
    by (simp add: load_next_def pop_preload_def)
qed

lemma fill_subset:
  assumes "fill st psz ord np rd = Inr (ord', np', rd')"
  shows "set ord' \<subseteq> set ord"
proof -
  from fill_popped [OF assms] obtain popped where "mset popped + mset ord' = mset ord"
    by blast
  then have "mset ord' \<subseteq># mset ord"
    by (metis mset_subset_eq_add_right)
  then show ?thesis
    by (rule set_mset_mono [of "mset ord'" "mset ord", simplified])
qed

lemma next_ds_servable:
  assumes "servable st d"
  shows "\<exists>p d'. next_ds st d = Inr (p, d') \<and> servable st d'"
proof (cases "length (preload d) < batch_size d")
  case False
  from assms have "0 < batch_size d" by (simp add: servable_def)
  from load_next_pop [OF False this, of st] assms show ?thesis
    by (auto simp: next_ds_def servable_def)
next
  case True
  from assms have sv: "0 < batch_size d" "0 < preload_size d" "start d < end_ix d"
    "set (load_ordering d) \<subseteq> {start d..<end_ix d}"
    "\<forall>i\<in>{start d..<end_ix d}. case st i of None \<Rightarrow> False | Some pairs \<Rightarrow> pairs \<noteq> []"
    by (simp_all add: servable_def)
  let ?r = "if load_ordering d = [] then new_ordering d else Inr d"
  have "\<exists>d1. ?r = Inr d1"
    using new_ordering_result [OF sv(2)] by auto
  then obtain d1 where d1: "?r = Inr d1" by blast
  note f = reorder_fields [OF d1]
  have sub: "set (load_ordering d1) \<subseteq> {start d..<end_ix d}"
  proof (cases "load_ordering d = []")
    case True
    with f have "mset (load_ordering d1) = mset [start d..<end_ix d]" by simp
    then have "set (load_ordering d1) = set [start d..<end_ix d]"
      by (rule mset_eq_setD)
    then show ?thesis by simp
  next
    case False
    with f sv(4) show ?thesis by simp
  qed
  have ne: "load_ordering d1 \<noteq> []"
  proof (cases "load_ordering d = []")
    case True
    with f have "mset (load_ordering d1) = mset [start d..<end_ix d]" by simp
    then have "length (load_ordering d1) = length [start d..<end_ix d]"
      by (metis size_mset)
    with sv(3) show ?thesis by auto
  next
    case False
    with f show ?thesis by simp
  qed
  have some: "\<forall>i\<in>set (load_ordering d1). st i \<noteq> None"
    using sub sv(5) by (auto split: option.splits)
  have nonempty: "\<forall>i\<in>set (load_ordering d1). \<forall>pairs. st i = Some pairs \<longrightarrow> pairs \<noteq> []"
    using sub sv(5) by (auto split: option.splits)
  from fill_total [OF some, of "preload_size d1" "[]" "reads d1"] obtain ord np rd where
    fl: "fill st (preload_size d1) (load_ordering d1) [] (reads d1) = Inr (ord, np, rd)"
    by blast
  from f sv(2) have "0 < preload_size d1" by simp
  from fill_nonempty [OF fl ne this nonempty] have np: "np \<noteq> []" .
  from load_next_refill [OF True d1 fl] np obtain p d' where
    r: "load_next st d = Inr (p, d')" "load_ordering d' = ord"
      "start d' = start d" "end_ix d' = end_ix d" "batch_size d' = batch_size d"
      "preload_size d' = preload_size d"
    by blast
  from fill_subset [OF fl] sub have "set ord \<subseteq> {start d..<end_ix d}" by blast
  with r sv have "servable st d'"
    by (simp add: servable_def)
  with r(1) show ?thesis
    by (auto simp: next_ds_def)
qed

lemma take_items_servable:
  "servable st d \<Longrightarrow> \<exists>ps d'. take_items st n d = Inr (ps, d') \<and> length ps = n \<and> servable st d'"
proof (induction n arbitrary: d)
  case 0
  then show ?case by simp
next
  case (Suc n)
  from next_ds_servable [OF Suc.prems] obtain p d1 where
    a: "next_ds st d = Inr (p, d1)" "servable st d1"
    by blast
  from Suc.IH [OF a(2)] obtain ps d' where
    b: "take_items st n d1 = Inr (ps, d')" "length ps = n" "servable st d'"
    by blast
  from a b have "take_items st (Suc n) d = Inr (p # ps, d') \<and> length (p # ps) = Suc n \<and> servable st d'"
    by simp
  then show ?case by blast
qed

lemma iter_ds_fields:
  assumes "iter_ds d0 wi = Inr d"
  shows "batch_size d = batch_size d0 \<and> preload_size d = preload_size d0 \<and>
      entries d = entries d0 \<and> reads d = reads d0 \<and> preload d = preload d0 \<and>
      shard_range (entries d0) wi = Inr (start d, end_ix d) \<and>
      mset (load_ordering d) = mset [start d..<end_ix d]"
proof -
  from assms obtain s e where
    r: "shard_range (entries d0) wi = Inr (s, e)" and
    n: "new_ordering (d0\<lparr>start := s, end_ix := e\<rparr>) = Inr d"
    by (auto simp: iter_ds_def split: sum.splits)
  from new_ordering_Inr [OF n] r show ?thesis by auto
qed

lemma iter_ds_servable:
  assumes "iter_ds d0 wi = Inr d" "0 < batch_size d0" "0 < preload_size d0" "start d < end_ix d"
    and "\<forall>i\<in>{start d..<end_ix d}. case st i of None \<Rightarrow> False | Some pairs \<Rightarrow> pairs \<noteq> []"
  shows "servable st d"
proof -
  note f = iter_ds_fields [OF assms(1)]
  then have "mset (load_ordering d) = mset [start d..<end_ix d]" by simp
  then have "set (load_ordering d) = set [start d..<end_ix d]"
    by (rule mset_eq_setD)
  with f assms(2-5) show ?thesis
    by (simp add: servable_def)
qed

text \<open>
  Claim C9, as stated, fails for a shard whose index range is empty: with 4 entries and 3
  workers, worker 2 gets the range from 4 to 4, its ordering is empty and stays empty when
  regenerated, nothing is loaded, and the first \<^verbatim>\<open>__next__\<close> raises \<open>IndexError\<close> on
  \<^verbatim>\<open>self._preload.pop()\<close>.
\<close>

theorem empty_shard_counterexample:
  "iter_ds (frames_dataset_init 4 1 example_rng) (Some \<lparr>num_workers = 3, worker_id = 2\<rparr>)
     = Inr \<lparr>entries = 4, batch_size = 1, preload_size = 10, preload = ([]::nat list), start = 4,
            end_ix = 4, load_ordering = [], reads = [], gen = example_rng\<rparr> \<and>
   next_ds (\<lambda>i. if i < 4 then Some [i] else None)
     \<lparr>entries = 4, batch_size = 1, preload_size = 10, preload = [], start = 4, end_ix = 4,
      load_ordering = [], reads = [], gen = example_rng\<rparr> = Inl IndexError"
proof -
  have c: "per_worker 4 3 = 2"
    by (simp add: per_worker_def)
  have b: "block_shuffle ([]::nat list) 10 g = Inr ([], g)" for g
    by (rule single_block) simp_all
  have s: "shuffle ([]::nat list) g = ([], g)" for g
    by (simp add: shuffle_def)
  have b1: "block_shuffle ([]::nat list) (Suc 0) g = Inr ([], g)" for g
    by (rule single_block) simp_all
  have 1: "iter_ds (frames_dataset_init 4 1 example_rng) (Some \<lparr>num_workers = 3, worker_id = 2\<rparr>)
     = Inr \<lparr>entries = 4, batch_size = 1, preload_size = 10, preload = ([]::nat list), start = 4,
            end_ix = 4, load_ordering = [], reads = [], gen = example_rng\<rparr>"
    by (simp add: iter_ds_def shard_range_def c new_ordering_def b frames_dataset_init_def)
  have 2: "next_ds (\<lambda>i. if i < 4 then Some [i] else None)
     \<lparr>entries = 4, batch_size = 1, preload_size = 10, preload = [], start = 4, end_ix = 4,
      load_ordering = [], reads = [], gen = example_rng\<rparr> = Inl IndexError"
    by (simp add: next_ds_def load_next_def new_ordering_def b b1 s fill.simps pop_preload_def)
  from 1 2 show ?thesis by simp
qed

text \<open>
  Claim C9, amended. For a shard that is not empty, positive batch and preload sizes (the
  preload size is ten times the batch size) and a store that holds every record of the shard
  with at least one pair each: \<^verbatim>\<open>__iter__\<close> leaves a dataset
  on which every call of \<^verbatim>\<open>__next__\<close> returns a pair and leaves such a dataset again, the
  emptied ordering being regenerated in place; so any number \<open>n\<close> of calls in a row returns
  \<open>n\<close> pairs, and the stream never ends.
\<close>

theorem stream_never_ends:
  "(iter_ds d0 wi = Inr d \<and> 0 < batch_size d0 \<and> 0 < preload_size d0 \<and> start d < end_ix d \<and>
    (\<forall>i\<in>{start d..<end_ix d}. case st i of None \<Rightarrow> False | Some pairs \<Rightarrow> pairs \<noteq> []) \<longrightarrow>
      servable st d) \<and>
   (servable st d \<longrightarrow>
      (\<exists>p d'. next_ds st d = Inr (p, d') \<and> servable st d') \<and>
      (\<forall>n. \<exists>ps d'. take_items st n d = Inr (ps, d') \<and> length ps = n \<and> servable st d'))"
  using iter_ds_servable [of d0 wi d st] next_ds_servable [of st d] take_items_servable [of st d]
  by blast

theorem stream_never_ends_witness:
  "iter_ds (frames_dataset_init 23 3 example_rng) None
     = Inr \<lparr>entries = 23, batch_size = 3, preload_size = 30, preload = ([]::nat list), start = 0,
            end_ix = 23, load_ordering = rev [0..<23], reads = [], gen = example_rng\<rparr> \<and>
   servable example_store
     \<lparr>entries = 23, batch_size = 3, preload_size = 30, preload = [], start = 0, end_ix = 23,
      load_ordering = rev [0..<23], reads = [], gen = example_rng\<rparr> \<and>
   (\<exists>ps d'. take_items example_store 100
       \<lparr>entries = 23, batch_size = 3, preload_size = 30, preload = [], start = 0, end_ix = 23,
        load_ordering = rev [0..<23], reads = [], gen = example_rng\<rparr> = Inr (ps, d') \<and>
      length ps = 100 \<and> servable example_store d')"
proof -
  let ?init = "frames_dataset_init 23 3 example_rng :: nat frames_dataset"
  let ?d = "\<lparr>entries = 23, batch_size = 3, preload_size = 30, preload = [], start = 0,
      end_ix = 23, load_ordering = rev [0..<23], reads = [], gen = example_rng\<rparr> :: nat frames_dataset"
  have b: "block_shuffle [0..<23] 30 g = Inr ([0..<23], g)" for g
    by (rule single_block) simp_all
  have 1: "iter_ds ?init None = Inr ?d"
    by (simp add: iter_ds_def shard_range_def new_ordering_def b frames_dataset_init_def)
  have 2: "0 < batch_size ?init \<and> 0 < preload_size ?init \<and> start ?d < end_ix ?d"
    by (simp add: frames_dataset_init_def)
  have 3: "\<forall>i\<in>{start ?d..<end_ix ?d}. case example_store i of None \<Rightarrow> False | Some pairs \<Rightarrow> pairs \<noteq> []"
    by simp
  note t = stream_never_ends [of ?init None ?d example_store]
  from t 1 2 3 have sv: "servable example_store ?d"
    by blast
  with t have "\<exists>ps d'. take_items example_store 100 ?d = Inr (ps, d') \<and> length ps = 100 \<and>
      servable example_store d'"
    by blast
  with 1 sv show ?thesis by blast
qed

lemma take_items_fields:
  "take_items st n d = Inr (ps, d') \<Longrightarrow> start d' = start d \<and> end_ix d' = end_ix d"
proof (induction n arbitrary: d ps)
  case 0
  then show ?case by simp
next
  case (Suc n)
  from Suc.prems obtain p d1 ps1 where
    a: "next_ds st d = Inr (p, d1)" and b: "take_items st n d1 = Inr (ps1, d')"
    by (auto split: sum.splits)
  from a have "load_next st d = Inr (p, d1)" by (simp add: next_ds_def)
  from load_next_Inr [OF this] Suc.IH [OF b] show ?case by simp
qed

lemma take_items_append:
  "take_items st m d = Inr (ps, d1) \<Longrightarrow> take_items st n d1 = Inr (qs, d2) \<Longrightarrow>
   take_items st (m + n) d = Inr (ps @ qs, d2)"
proof (induction m arbitrary: d ps)
  case 0
  then show ?case by simp
next
  case (Suc m)
  from Suc.prems(1) obtain p d' ps1 where
    a: "next_ds st d = Inr (p, d')" and b: "take_items st m d' = Inr (ps1, d1)" and c: "ps = p # ps1"
    by (auto split: sum.splits)
  from Suc.IH [OF b Suc.prems(2)] a c show ?case by simp
qed

lemma chain_view:
  assumes "\<exists>ps d1. take_items st m d = Inr (ps, d1) \<and> view d1 = v"
    and "\<And>d1. view d1 = v \<Longrightarrow> \<exists>qs d2. take_items st n d1 = Inr (qs, d2) \<and> view d2 = w"
  shows "\<exists>ps d2. take_items st (m + n) d = Inr (ps, d2) \<and> view d2 = w"
proof -
  from assms(1) obtain ps d1 where a: "take_items st m d = Inr (ps, d1)" "view d1 = v"
    by blast
  from assms(2) [OF a(2)] obtain qs d2 where b: "take_items st n d1 = Inr (qs, d2)" "view d2 = w"
    by blast
  from take_items_append [OF a(1) b(1)] b(2) show ?thesis by blast
qed

lemma refill_view:
  assumes "view d = (s, e, b, z, ord0, rd, len)" "len < b" "ord0 \<noteq> []"
    and "fill st z ord0 [] rd = Inr (ord, np, rd')" "np \<noteq> []"
  shows "\<exists>ps d'. take_items st 1 d = Inr (ps, d') \<and>
      view d' = (s, e, b, z, ord, rd', len + length np - 1)"
proof -
  from assms(1) have v: "start d = s" "end_ix d = e" "batch_size d = b" "preload_size d = z"
    "load_ordering d = ord0" "reads d = rd" "length (preload d) = len"
    by (simp_all add: view_def)
  have 1: "length (preload d) < batch_size d" using v assms(2) by simp
  have 2: "(if load_ordering d = [] then new_ordering d else Inr d) = Inr d"
    using v assms(3) by simp
  have 3: "fill st (preload_size d) (load_ordering d) [] (reads d) = Inr (ord, np, rd')"
    using v assms(4) by simp
  from load_next_refill [OF 1 2 3] assms(5) obtain p d' where
    r: "load_next st d = Inr (p, d')" "view d' = (s, e, b, z, ord, rd', len + length np - 1)"
    using v by (auto simp: view_def)
  then have "take_items st 1 d = Inr ([p], d')"
    by (simp add: next_ds_def)
  with r(2) show ?thesis by blast
qed

lemma regen_view:
  assumes "view d = (s, e, b, z, [], rd, len)" "len < b" "0 < z" "e - s \<le> z"
    and "fill st z (rev [s..<e]) [] rd = Inr (ord, np, rd')" "np \<noteq> []"
  shows "\<exists>ps d'. take_items st 1 d = Inr (ps, d') \<and>
      view d' = (s, e, b, z, ord, rd', len + length np - 1)"
proof -
  from assms(1) have v: "start d = s" "end_ix d = e" "batch_size d = b" "preload_size d = z"
    "load_ordering d = []" "reads d = rd" "length (preload d) = len"
    by (simp_all add: view_def)
  let ?d1 = "d\<lparr>load_ordering := rev [s..<e], gen := gen d\<rparr>"
  have "block_shuffle [s..<e] z (gen d) = Inr ([s..<e], gen d)"
    using assms(3,4) by (intro single_block) simp_all
  then have n: "new_ordering d = Inr ?d1"
    using v by (simp add: new_ordering_def)
  have 1: "length (preload d) < batch_size d" using v assms(2) by simp
  have 2: "(if load_ordering d = [] then new_ordering d else Inr d) = Inr ?d1"
    using v n by simp
  have 3: "fill st (preload_size ?d1) (load_ordering ?d1) [] (reads ?d1) = Inr (ord, np, rd')"
    using v assms(5) by simp
  from load_next_refill [OF 1 2 3] assms(6) obtain p d' where
    r: "load_next st d = Inr (p, d')" "view d' = (s, e, b, z, ord, rd', len + length np - 1)"
    using v by (auto simp: view_def)
  then have "take_items st 1 d = Inr ([p], d')"
    by (simp add: next_ds_def)
  with r(2) show ?thesis by blast
qed

lemma pops_view:
  "view d = (s, e, b, z, ord, rd, len) \<Longrightarrow> 0 < b \<Longrightarrow> b + k \<le> len + 1 \<Longrightarrow>
   \<exists>ps d'. take_items st k d = Inr (ps, d') \<and> view d' = (s, e, b, z, ord, rd, len - k)"
proof (induction k arbitrary: d len)
  case 0
  then show ?case by simp
next
  case (Suc k)
  from Suc.prems(1) have v: "batch_size d = b" "length (preload d) = len"
    by (simp_all add: view_def)
  with Suc.prems(3) have 1: "\<not> length (preload d) < batch_size d" by simp
  from v Suc.prems(2) have 2: "0 < batch_size d" by simp
  let ?d1 = "d\<lparr>preload := butlast (preload d)\<rparr>"
  note l = load_next_pop [OF 1 2, of st]
  have "view ?d1 = (s, e, b, z, ord, rd, len - 1)"
    using Suc.prems(1) by (simp add: view_def)
  moreover have "b + k \<le> (len - 1) + 1"
    using Suc.prems(2,3) by simp
  ultimately obtain ps d' where
    r: "take_items st k ?d1 = Inr (ps, d')" "view d' = (s, e, b, z, ord, rd, len - 1 - k)"
    using Suc.IH [of ?d1 "len - 1"] Suc.prems(2) by blast
  from l r have "take_items st (Suc k) d = Inr (last (preload d) # ps, d') \<and>
      view d' = (s, e, b, z, ord, rd, len - Suc k)"
    by (simp add: next_ds_def)
  then show ?case by blast
qed

text \<open>
  Claim C8. After \<^verbatim>\<open>__iter__\<close> on a dataset that has read nothing yet and any number of calls
  of \<^verbatim>\<open>__next__\<close>, the sequence of record indices read from the store is a sequence of
  complete passes, each a permutation of the shard's range (every index exactly once),
  followed by the part read of the current pass, which together with the ordering still to
  be read is again a permutation of the range: a regenerated ordering starts a fresh complete
  pass. Hence, whenever the number of reads is \<open>k\<close> times the size of the shard, every index
  of the shard has been read exactly \<open>k\<close> times; after two full passes, exactly twice. The
  example after the theorem is the shard of 23 records with batch size 3, preload size 30.
\<close>

theorem passes_visit_each_record_once:
  "iter_ds d0 wi = Inr d \<and> reads d0 = [] \<and> take_items st n d = Inr (ps, d') \<longrightarrow>
     start d' = start d \<and> end_ix d' = end_ix d \<and>
     (\<exists>passes cur.
        reads d' = concat passes @ cur \<and>
        (\<forall>p\<in>set passes. mset p = mset [start d..<end_ix d]) \<and>
        mset cur + mset (load_ordering d') = mset [start d..<end_ix d]) \<and>
     (\<forall>k. length (reads d') = k * (end_ix d - start d) \<longrightarrow>
        (\<forall>i\<in>{start d..<end_ix d}. count (mset (reads d')) i = k))"
proof
  assume a: "iter_ds d0 wi = Inr d \<and> reads d0 = [] \<and> take_items st n d = Inr (ps, d')"
  then have i: "pass_structure [start d..<end_ix d] (reads d) (load_ordering d)"
    using iter_ds_pass_structure [of d0 wi d] by blast
  from a have t: "take_items st n d = Inr (ps, d')" by blast
  from take_items_fields [OF t] have f: "start d' = start d" "end_ix d' = end_ix d"
    by simp_all
  from take_items_pass_structure [OF t i] f
  have p: "pass_structure [start d..<end_ix d] (reads d') (load_ordering d')"
    by simp
  have c: "count (mset (reads d')) i = k"
    if "length (reads d') = k * (end_ix d - start d)" "i \<in> {start d..<end_ix d}" for k i
    using pass_structure_count [OF p, of i k] that by simp
  from f p c show "start d' = start d \<and> end_ix d' = end_ix d \<and>
     (\<exists>passes cur.
        reads d' = concat passes @ cur \<and>
        (\<forall>p\<in>set passes. mset p = mset [start d..<end_ix d]) \<and>
        mset cur + mset (load_ordering d') = mset [start d..<end_ix d]) \<and>
     (\<forall>k. length (reads d') = k * (end_ix d - start d) \<longrightarrow>
        (\<forall>i\<in>{start d..<end_ix d}. count (mset (reads d')) i = k))"
    unfolding pass_structure_def by blast
qed

lemma scenario_fills:
  "map_sum id (\<lambda>(ord, np, rd). (ord, length np, rd)) (fill example_store 30 (rev [0..<23]) [] [])
     = Inr (rev [15..<23], 30, [0..<15])"
  "map_sum id (\<lambda>(ord, np, rd). (ord, length np, rd)) (fill example_store 30 (rev [15..<23]) [] [0..<15])
     = Inr ([], 16, [0..<23])"
  "map_sum id (\<lambda>(ord, np, rd). (ord, length np, rd)) (fill example_store 30 (rev [0..<23]) [] [0..<23])
     = Inr (rev [15..<23], 30, [0..<23] @ [0..<15])"
  "map_sum id (\<lambda>(ord, np, rd). (ord, length np, rd))
     (fill example_store 30 (rev [15..<23]) [] ([0..<23] @ [0..<15]))
     = Inr ([], 16, [0..<23] @ [0..<23])"
  by code_simp+

lemma fill_length_result:
  "map_sum id (\<lambda>(ord, np, rd). (ord, length np, rd)) (fill st z ord0 [] rd0) = Inr (ord, n, rd) \<Longrightarrow>
   \<exists>np. fill st z ord0 [] rd0 = Inr (ord, np, rd) \<and> length np = n"
  by (cases "fill st z ord0 [] rd0") auto

lemma scenario_run:
  fixes d :: "nat frames_dataset"
  assumes "view d = (0, 23, 3, 30, rev [0..<23], [], 0)"
  shows "\<exists>ps d'. take_items example_store 75 d = Inr (ps, d') \<and>
      view d' = (0, 23, 3, 30, [], [0..<23] @ [0..<23], 17)"
proof -
  let ?st = example_store
  have 1: "\<exists>ps d1. take_items ?st 1 d = Inr (ps, d1) \<and>
      view d1 = (0, 23, 3, 30, rev [15..<23], [0..<15], 29)"
  proof -
    from fill_length_result [OF scenario_fills(1)] obtain np where
      f: "fill ?st 30 (rev [0..<23]) [] [] = Inr (rev [15..<23], np, [0..<15])" and l: "length np = 30"
      by blast
    from l have ne: "np \<noteq> []" by auto
    have c: "(0::nat) < 3" "rev [0..<23::nat] \<noteq> []" by simp_all
    have "0 + length np - 1 = 29" using l by simp
    with refill_view [OF assms c f ne] show ?thesis
      by (simp only:)
  qed
  have 2: "\<exists>ps d2. take_items ?st 27 d1 = Inr (ps, d2) \<and>
      view d2 = (0, 23, 3, 30, rev [15..<23], [0..<15], 2)"
    if "view d1 = (0, 23, 3, 30, rev [15..<23], [0..<15], 29)" for d1 :: "nat frames_dataset"
  proof -
    have c: "(0::nat) < 3" "(3::nat) + 27 \<le> 29 + 1" "(29::nat) - 27 = 2" by simp_all
    from pops_view [OF that c(1,2), of ?st] show ?thesis by (simp only: c(3))
  qed
  have 3: "\<exists>ps d3. take_items ?st 1 d2 = Inr (ps, d3) \<and> view d3 = (0, 23, 3, 30, [], [0..<23], 17)"
    if v: "view d2 = (0, 23, 3, 30, rev [15..<23], [0..<15], 2)" for d2 :: "nat frames_dataset"
  proof -
    from fill_length_result [OF scenario_fills(2)] obtain np where
      f: "fill ?st 30 (rev [15..<23]) [] [0..<15] = Inr ([], np, [0..<23])" and l: "length np = 16"
      by blast
    from l have ne: "np \<noteq> []" by auto
    have c: "(2::nat) < 3" "rev [15..<23::nat] \<noteq> []" by simp_all
    have "2 + length np - 1 = 17" using l by simp
    with refill_view [OF v c f ne] show ?thesis
      by (simp only:)
  qed
  have 4: "\<exists>ps d4. take_items ?st 15 d3 = Inr (ps, d4) \<and> view d4 = (0, 23, 3, 30, [], [0..<23], 2)"
    if "view d3 = (0, 23, 3, 30, [], [0..<23], 17)" for d3 :: "nat frames_dataset"
  proof -
    have c: "(0::nat) < 3" "(3::nat) + 15 \<le> 17 + 1" "(17::nat) - 15 = 2" by simp_all
    from pops_view [OF that c(1,2), of ?st] show ?thesis by (simp only: c(3))
  qed
  have 5: "\<exists>ps d5. take_items ?st 1 d4 = Inr (ps, d5) \<and>
      view d5 = (0, 23, 3, 30, rev [15..<23], [0..<23] @ [0..<15], 31)"
    if v: "view d4 = (0, 23, 3, 30, [], [0..<23], 2)" for d4 :: "nat frames_dataset"
  proof -
    from fill_length_result [OF scenario_fills(3)] obtain np where
      f: "fill ?st 30 (rev [0..<23]) [] [0..<23] = Inr (rev [15..<23], np, [0..<23] @ [0..<15])"
      and l: "length np = 30"
      by blast
    from l have ne: "np \<noteq> []" by auto
    have c: "(2::nat) < 3" "(0::nat) < 30" "(23::nat) - 0 \<le> 30" by simp_all
    have "2 + length np - 1 = 31" using l by simp
    with regen_view [OF v c f ne] show ?thesis
      by (simp only:)
  qed
  have 6: "\<exists>ps d6. take_items ?st 29 d5 = Inr (ps, d6) \<and>
      view d6 = (0, 23, 3, 30, rev [15..<23], [0..<23] @ [0..<15], 2)"
    if "view d5 = (0, 23, 3, 30, rev [15..<23], [0..<23] @ [0..<15], 31)" for d5 :: "nat frames_dataset"
  proof -
    have c: "(0::nat) < 3" "(3::nat) + 29 \<le> 31 + 1" "(31::nat) - 29 = 2" by simp_all
    from pops_view [OF that c(1,2), of ?st] show ?thesis by (simp only: c(3))
  qed
  have 7: "\<exists>ps d7. take_items ?st 1 d6 = Inr (ps, d7) \<and>
      view d7 = (0, 23, 3, 30, [], [0..<23] @ [0..<23], 17)"
    if v: "view d6 = (0, 23, 3, 30, rev [15..<23], [0..<23] @ [0..<15], 2)" for d6 :: "nat frames_dataset"
  proof -
    from fill_length_result [OF scenario_fills(4)] obtain np where
      f: "fill ?st 30 (rev [15..<23]) [] ([0..<23] @ [0..<15]) = Inr ([], np, [0..<23] @ [0..<23])"
      and l: "length np = 16"
      by blast
    from l have ne: "np \<noteq> []" by auto
    have c: "(2::nat) < 3" "rev [15..<23::nat] \<noteq> []" by simp_all
    have "2 + length np - 1 = 17" using l by simp
    with refill_view [OF v c f ne] show ?thesis
      by (simp only:)
  qed
  note a = chain_view [OF 1 2]
  note b = chain_view [OF a 3]
  note c = chain_view [OF b 4]
  note e = chain_view [OF c 5]
  note f = chain_view [OF e 6]
  note g = chain_view [OF f 7]
  have "(1::nat) + 27 + 1 + 15 + 1 + 29 + 1 = 75" by simp
  with g show ?thesis by (simp only:)
qed

theorem passes_visit_each_record_once_witness:
  "iter_ds (frames_dataset_init 23 3 example_rng) None
     = Inr \<lparr>entries = 23, batch_size = 3, preload_size = 30, preload = ([]::nat list), start = 0,
            end_ix = 23, load_ordering = rev [0..<23], reads = [], gen = example_rng\<rparr> \<and>
   reads (frames_dataset_init 23 3 example_rng :: nat frames_dataset) = [] \<and>
   (\<exists>ps d'. take_items example_store 75
        \<lparr>entries = 23, batch_size = 3, preload_size = 30, preload = [], start = 0, end_ix = 23,
         load_ordering = rev [0..<23], reads = [], gen = example_rng\<rparr> = Inr (ps, d') \<and>
      reads d' = [0..<23] @ [0..<23] \<and>
      length (reads d') = 2 * (23 - 0) \<and>
      (\<forall>i\<in>{0..<23}. count (mset (reads d')) i = 2))"
proof -
  let ?init = "frames_dataset_init 23 3 example_rng :: nat frames_dataset"
  let ?D = "\<lparr>entries = 23, batch_size = 3, preload_size = 30, preload = [], start = 0,
      end_ix = 23, load_ordering = rev [0..<23], reads = [], gen = example_rng\<rparr> :: nat frames_dataset"
  have b: "block_shuffle [0..<23] 30 g = Inr ([0..<23], g)" for g
    by (rule single_block) simp_all
  have 1: "iter_ds ?init None = Inr ?D"
    by (simp add: iter_ds_def shard_range_def new_ordering_def b frames_dataset_init_def)
  have 2: "reads ?init = []"
    by (simp add: frames_dataset_init_def)
  have "view ?D = (0, 23, 3, 30, rev [0..<23], [], 0)"
    by (simp add: view_def)
  from scenario_run [OF this] obtain ps d' where
    t: "take_items example_store 75 ?D = Inr (ps, d')"
    and v: "view d' = (0, 23, 3, 30, [], [0..<23] @ [0..<23], 17)"
    by blast
  from v have r: "reads d' = [0..<23] @ [0..<23]"
    by (simp add: view_def)
  then have l: "length (reads d') = 2 * (end_ix ?D - start ?D)"
    by simp
  note c = passes_visit_each_record_once [of ?init None ?D example_store 75 ps d']
  from c 1 2 t l have "\<forall>i\<in>{start ?D..<end_ix ?D}. count (mset (reads d')) i = 2"
    by blast
  then have "\<forall>i\<in>{0..<23}. count (mset (reads d')) i = 2"
    by simp
  with 1 2 t r show ?thesis
    by (intro conjI exI [of _ ps] exI [of _ d']) simp_all
qed

end
